theory Spec2Isabelle
  imports Main "HOL-Library.Word"
begin

section \<open>Platform and string primitives\<close>

text \<open>
  \<^verbatim>\<open>Filesystem.hpp\<close> selects the separator with \<^verbatim>\<open>#ifdef _WIN32\<close>; the same switch guards
  one statement of \<^verbatim>\<open>Path::Normalize\<close>. The platform is therefore a parameter of the model.
\<close>

datatype platform = Windows | Posix

definition PATH_SEPARATOR :: "platform \<Rightarrow> char" where
  "PATH_SEPARATOR pf = (case pf of Windows \<Rightarrow> CHR 0x5C | Posix \<Rightarrow> CHR 0x2F)"

text \<open>Exceptions of the standard library that the modelled code can raise.\<close>

datatype error = OutOfRange | LengthError

text \<open>\<^verbatim>\<open>std::string::find(c, start)\<close> and \<^verbatim>\<open>find_last_of(c)\<close>; \<open>None\<close> is \<^verbatim>\<open>npos\<close>.\<close>

fun find_idx :: "char \<Rightarrow> string \<Rightarrow> nat option" where
  "find_idx c [] = None"
| "find_idx c (x # xs) = (if x = c then Some 0 else map_option Suc (find_idx c xs))"

definition find_char :: "string \<Rightarrow> char \<Rightarrow> nat \<Rightarrow> nat option" where
  "find_char s c start = map_option (\<lambda>i. start + i) (find_idx c (drop start s))"

definition find_last_of :: "string \<Rightarrow> char \<Rightarrow> nat option" where
  "find_last_of s c = map_option (\<lambda>i. length s - 1 - i) (find_idx c (rev s))"

text \<open>
  \<^verbatim>\<open>std::string::substr(pos, n)\<close> throws \<^verbatim>\<open>std::out_of_range\<close> when \<^verbatim>\<open>pos > size()\<close> and
  otherwise returns at most \<open>n\<close> characters from \<open>pos\<close>. \<open>substr_from\<close> is the one-argument
  form (\<^verbatim>\<open>n = npos\<close>).
\<close>

definition substr :: "string \<Rightarrow> nat \<Rightarrow> nat \<Rightarrow> error + string" where
  "substr s pos n = (if pos > length s then Inl OutOfRange else Inr (take n (drop pos s)))"

definition substr_from :: "string \<Rightarrow> nat \<Rightarrow> error + string" where
  "substr_from s pos = (if pos > length s then Inl OutOfRange else Inr (drop pos s))"

text \<open>\<^verbatim>\<open>std::to_string(int)\<close>: the decimal digits, with a minus sign for negatives.\<close>

definition digit_char :: "nat \<Rightarrow> char" where
  "digit_char d = char_of (48 + d)"

function to_string_nat :: "nat \<Rightarrow> string" where
  "to_string_nat n =
     (if n < 10 then [digit_char n] else to_string_nat (n div 10) @ [digit_char (n mod 10)])"
  by pat_completeness auto
termination
  by (relation "measure id") auto

declare to_string_nat.simps [simp del]

definition to_string :: "int \<Rightarrow> string" where
  "to_string i = (if i < 0 then CHR ''-'' # to_string_nat (nat (- i)) else to_string_nat (nat i))"

text \<open>
  \<^verbatim>\<open>#define X_TOSTR(val) std::to_string(val)\<close>. \<^verbatim>\<open>std::to_string\<close> has no overload for
  \<^verbatim>\<open>char\<close>; a \<^verbatim>\<open>char\<close> argument is promoted to \<^verbatim>\<open>int\<close>, so the macro yields the decimal
  character code. (Both separators have codes below 128, so the signedness of
  \<^verbatim>\<open>char\<close> does not matter here.)
\<close>

definition X_TOSTR :: "char \<Rightarrow> string" where
  "X_TOSTR val = to_string (int (of_char val))"

section \<open>Path\<close>

record Path =
  mPath :: string

text \<open>
  The loop of \<^verbatim>\<open>Path::Normalize\<close>, with \<open>start\<close> and \<open>parts\<close> as its state.
  \<^verbatim>\<open>rawPath.substr(start, end - start)\<close> cannot throw there, since \<open>start < size\<close>.
\<close>

definition Normalize_step :: "string list \<Rightarrow> string \<Rightarrow> string list" where
  "Normalize_step parts part =
     (if part = ''..'' \<and> parts \<noteq> [] \<and> last parts \<noteq> ''..'' then butlast parts
      else if part \<noteq> [] \<and> part \<noteq> ''.'' then parts @ [part]
      else parts)"

definition find_end :: "char \<Rightarrow> string \<Rightarrow> nat \<Rightarrow> nat" where
  "find_end sep rawPath start =
     (case find_char rawPath sep start of None \<Rightarrow> length rawPath | Some e \<Rightarrow> e)"

function Normalize_loop :: "char \<Rightarrow> string \<Rightarrow> nat \<Rightarrow> string list \<Rightarrow> string list" where
  "Normalize_loop sep rawPath start parts =
     (if start < length rawPath then
        Normalize_loop sep rawPath (find_end sep rawPath start + 1)
          (Normalize_step parts
             (take (find_end sep rawPath start - start) (drop start rawPath)))
      else parts)"
  by pat_completeness auto
termination
proof (relation "measure (\<lambda>(sep, rawPath, start, parts). length rawPath - start)")
  show "wf (measure (\<lambda>(sep, rawPath, start, parts). length rawPath - start))"
    by simp
next
  fix sep :: char and rawPath :: string and start :: nat and parts :: "string list"
  assume lt: "start < length rawPath"
  have "start \<le> find_end sep rawPath start"
    using lt by (auto simp: find_end_def find_char_def split: option.splits)
  then show "((sep, rawPath, find_end sep rawPath start + 1,
                Normalize_step parts
                  (take (find_end sep rawPath start - start) (drop start rawPath))),
               (sep, rawPath, start, parts))
             \<in> measure (\<lambda>(sep, rawPath, start, parts). length rawPath - start)"
    using lt by simp
qed

declare Normalize_loop.simps [simp del]

text \<open>
  \<^verbatim>\<open>Path::Normalize\<close>. Each part is appended as separator followed by the part. Under
  \<^verbatim>\<open>_WIN32\<close> the first character is then removed with \<^verbatim>\<open>result.substr(1, result.size() - 1)\<close>,
  which throws when \<open>result\<close> is empty (position 1 lies beyond size 0; the count is
  irrelevant in that case and equals \<open>size - 1\<close> otherwise).
\<close>

definition Normalize :: "platform \<Rightarrow> string \<Rightarrow> error + string" where
  "Normalize pf rawPath =
     (let parts = Normalize_loop (PATH_SEPARATOR pf) rawPath 0 [];
          result = concat (map (\<lambda>part. PATH_SEPARATOR pf # part) parts);
          stripped = (case pf of
                        Windows \<Rightarrow> substr result 1 (length result - 1)
                      | Posix \<Rightarrow> Inr result)
      in case stripped of
           Inl e \<Rightarrow> Inl e
         | Inr r \<Rightarrow> Inr (if r = [] then [PATH_SEPARATOR pf] else r))"

text \<open>The constructor \<^verbatim>\<open>explicit Path(const str& path) : mPath(Normalize(path))\<close>.\<close>

definition Path_ctor :: "platform \<Rightarrow> string \<Rightarrow> error + Path" where
  "Path_ctor pf raw = (case Normalize pf raw of Inl e \<Rightarrow> Inl e | Inr s \<Rightarrow> Inr \<lparr>mPath = s\<rparr>)"

definition Str :: "Path \<Rightarrow> string" where
  "Str p = mPath p"

text \<open>\<^verbatim>\<open>Path::Parent\<close>.\<close>

definition Parent :: "platform \<Rightarrow> Path \<Rightarrow> error + Path" where
  "Parent pf p =
     (case find_last_of (mPath p) (PATH_SEPARATOR pf) of
        None \<Rightarrow> Path_ctor pf (X_TOSTR (PATH_SEPARATOR pf))
      | Some lastSeparator \<Rightarrow>
          if lastSeparator = 0 then Path_ctor pf (X_TOSTR (PATH_SEPARATOR pf))
          else (case substr (mPath p) 0 lastSeparator of
                  Inl e \<Rightarrow> Inl e
                | Inr s \<Rightarrow> Path_ctor pf s))"

text \<open>\<^verbatim>\<open>Path::HasExtension\<close>, \<^verbatim>\<open>Extension\<close>, \<^verbatim>\<open>ReplaceExtension\<close>.\<close>

definition HasExtension :: "platform \<Rightarrow> Path \<Rightarrow> bool" where
  "HasExtension pf p =
     (case find_last_of (mPath p) (CHR ''.'') of
        None \<Rightarrow> False
      | Some pos \<Rightarrow>
          (case find_last_of (mPath p) (PATH_SEPARATOR pf) of
             None \<Rightarrow> True
           | Some sep \<Rightarrow> pos > sep))"

definition Extension :: "platform \<Rightarrow> Path \<Rightarrow> error + string" where
  "Extension pf p =
     (if \<not> HasExtension pf p then Inr []
      else (case find_last_of (mPath p) (CHR ''.'') of
              None \<Rightarrow> substr_from (mPath p) 0
            | Some pos \<Rightarrow> substr_from (mPath p) (pos + 1)))"

definition ReplaceExtension :: "platform \<Rightarrow> Path \<Rightarrow> string \<Rightarrow> error + Path" where
  "ReplaceExtension pf p ext =
     (if \<not> HasExtension pf p then Path_ctor pf (mPath p @ ''.'' @ ext)
      else (case find_last_of (mPath p) (CHR ''.'') of
              None \<Rightarrow> Path_ctor pf (mPath p @ ''.'' @ ext)
            | Some pos \<Rightarrow>
                (case substr (mPath p) 0 pos of
                   Inl e \<Rightarrow> Inl e
                 | Inr stem \<Rightarrow> Path_ctor pf (stem @ ''.'' @ ext))))"

text \<open>
  The three joins. \<open>Join_static\<close> is the private \<^verbatim>\<open>static str Join(const str& lhs, const str& rhs)\<close>,
  \<open>Join_const\<close> the overload \<^verbatim>\<open>Path Join(const str&) const\<close>, \<open>Join_mut\<close> the overload
  \<^verbatim>\<open>Path& Join(const str&)\<close> that assigns to \<^verbatim>\<open>mPath\<close>, and \<open>operator_div\<close> is
  \<^verbatim>\<open>operator/\<close>.
\<close>

definition Join_static :: "platform \<Rightarrow> string \<Rightarrow> string \<Rightarrow> string" where
  "Join_static pf lhs rhs =
     (if lhs = [] then lhs
      else if rhs = [] then rhs
      else if last lhs = PATH_SEPARATOR pf then lhs @ rhs
      else lhs @ [PATH_SEPARATOR pf] @ rhs)"

definition Join_const :: "platform \<Rightarrow> Path \<Rightarrow> string \<Rightarrow> error + Path" where
  "Join_const pf p subPath = Path_ctor pf (Join_static pf (mPath p) subPath)"

definition operator_div :: "platform \<Rightarrow> Path \<Rightarrow> string \<Rightarrow> error + Path" where
  "operator_div pf p subPath = Path_ctor pf (Join_static pf (mPath p) subPath)"

definition Join_mut :: "platform \<Rightarrow> Path \<Rightarrow> string \<Rightarrow> Path" where
  "Join_mut pf p subPath = p\<lparr>mPath := Join_static pf (Str p) subPath\<rparr>"

text \<open>\<^verbatim>\<open>Path::Filename\<close> looks for a backslash first and for a slash second, on every platform.\<close>

definition Filename :: "Path \<Rightarrow> string" where
  "Filename p =
     (case find_last_of (mPath p) (CHR 0x5C) of
        Some pos \<Rightarrow> drop (pos + 1) (mPath p)
      | None \<Rightarrow>
          (case find_last_of (mPath p) (CHR 0x2F) of
             Some pos \<Rightarrow> drop (pos + 1) (mPath p)
           | None \<Rightarrow> mPath p))"

text \<open>
  \<^verbatim>\<open>Path::RelativeTo\<close>. The first \<^verbatim>\<open>substr(0, n)\<close> cannot throw; the second one is reached
  only when the prefix comparison succeeded.
\<close>

definition RelativeTo :: "platform \<Rightarrow> Path \<Rightarrow> Path \<Rightarrow> error + Path" where
  "RelativeTo pf this basePath =
     (let thisStr = Str this;
          baseStr0 = Str basePath;
          baseStr = (if baseStr0 \<noteq> [] \<and> last baseStr0 = PATH_SEPARATOR pf
                     then baseStr0 @ [PATH_SEPARATOR pf] else baseStr0)
      in case substr thisStr 0 (length baseStr) of
           Inl e \<Rightarrow> Inl e
         | Inr pre \<Rightarrow>
             if pre \<noteq> baseStr then Inr this
             else (case substr_from thisStr (length baseStr) of
                     Inl e \<Rightarrow> Inl e
                   | Inr relativePath \<Rightarrow>
                       if relativePath = [] then Path_ctor pf ''.''
                       else Path_ctor pf relativePath))"

section \<open>Files and streams\<close>

text \<open>
  What the operating system holds, as the library observes it: \<open>nodes\<close> is what
  \<^verbatim>\<open>stat\<close> and the stream constructors see under a path string, \<open>listing\<close> what
  \<^verbatim>\<open>FindFirstFileA\<close>/\<^verbatim>\<open>FindNextFileA\<close> enumerate for a search pattern, and
  \<open>readable\<close>/\<open>writable\<close> whether the system lets a stream be opened on the path for
  reading, or for writing (creating the entry when it is absent).
\<close>

datatype node = File string | Dir

record filesystem =
  nodes :: "string \<rightharpoonup> node"
  listing :: "string \<rightharpoonup> string list"
  readable :: "string \<Rightarrow> bool"
  writable :: "string \<Rightarrow> bool"

text \<open>
  The outcome of the device operations of one call, chosen by the environment: a \<open>False\<close>
  field is an I/O error of that kind.
\<close>

record device =
  seek_ok :: bool
  read_ok :: bool
  write_ok :: bool

text \<open>
  Modelled from the spec: \<^verbatim>\<open>Typedefs.hpp\<close>, which declares \<^verbatim>\<open>u8\<close>, \<^verbatim>\<open>u64\<close> and \<^verbatim>\<open>str\<close>, is
  not among the sources. The specification speaks of bytes, of file offsets and of
  strings, so \<^verbatim>\<open>u8\<close> and \<^verbatim>\<open>u64\<close> are the unsigned integers of 8 and 64 bits and
  \<^verbatim>\<open>str\<close> is \<^verbatim>\<open>std::string\<close>; \<^verbatim>\<open>size_t\<close> is that of a 64-bit target. The casts
  \<^verbatim>\<open>CAST\<close> and \<^verbatim>\<open>RCAST\<close> are taken as \<^verbatim>\<open>static_cast\<close> and \<^verbatim>\<open>reinterpret_cast\<close>.
\<close>

type_synonym u8 = "8 word"
type_synonym u64 = "64 word"
type_synonym size_t = "64 word"

definition u8_of_char :: "char \<Rightarrow> u8" where
  "u8_of_char c = of_nat (of_char c)"

text \<open>
  \<^verbatim>\<open>std::ifstream\<close>: the open flag, the state bits (\<open>failbit\<close> stands for
  \<^verbatim>\<open>failbit | badbit\<close>), the get position and the characters of the file.
\<close>

record ifstream =
  is_open :: bool
  failbit :: bool
  eofbit :: bool
  gpos :: nat
  buf :: string

definition good :: "ifstream \<Rightarrow> bool" where
  "good s = (\<not> failbit s \<and> \<not> eofbit s)"

definition ifstream_open :: "filesystem \<Rightarrow> string \<Rightarrow> bool \<Rightarrow> ifstream" where
  "ifstream_open fs path ate =
     (case nodes fs path of
        Some (File c) \<Rightarrow>
          if readable fs path
          then \<lparr>is_open = True, failbit = False, eofbit = False,
                gpos = (if ate then length c else 0), buf = c\<rparr>
          else \<lparr>is_open = False, failbit = True, eofbit = False, gpos = 0, buf = []\<rparr>
      | _ \<Rightarrow> \<lparr>is_open = False, failbit = True, eofbit = False, gpos = 0, buf = []\<rparr>)"

definition tellg :: "ifstream \<Rightarrow> int" where
  "tellg s = (if failbit s then - 1 else int (gpos s))"

definition seekg :: "bool \<Rightarrow> ifstream \<Rightarrow> int \<Rightarrow> ifstream" where
  "seekg ok s off =
     (if failbit s then s
      else if ok \<and> 0 \<le> off then s\<lparr>eofbit := False, gpos := nat off\<rparr>
      else s\<lparr>failbit := True\<rparr>)"

text \<open>
  \<^verbatim>\<open>istream::read(p, n)\<close>: the characters extracted and the new stream. A stream that
  is not good extracts nothing and fails; a device error fails; fewer than \<open>n\<close>
  characters before the end of the file set \<^verbatim>\<open>eofbit | failbit\<close>.
\<close>

definition istream_read :: "bool \<Rightarrow> ifstream \<Rightarrow> nat \<Rightarrow> ifstream \<times> string" where
  "istream_read ok s n =
     (if \<not> good s then (s\<lparr>failbit := True\<rparr>, [])
      else if \<not> ok then (s\<lparr>failbit := True\<rparr>, [])
      else if gpos s + n \<le> length (buf s)
           then (s\<lparr>gpos := gpos s + n\<rparr>, take n (drop (gpos s) (buf s)))
           else (s\<lparr>failbit := True, eofbit := True, gpos := length (buf s)\<rparr>,
                 drop (gpos s) (buf s)))"

text \<open>
  \<^verbatim>\<open>std::vector<u8>\<close>: the constructor \<^verbatim>\<open>vector(n)\<close> and \<^verbatim>\<open>resize(n)\<close> throw
  \<^verbatim>\<open>std::length_error\<close> beyond \<^verbatim>\<open>max_size()\<close>, which is \<^verbatim>\<open>PTRDIFF_MAX\<close> for bytes on
  a 64-bit target; new elements are zero.
\<close>

definition vector_max_size :: nat where
  "vector_max_size = 2 ^ 63 - 1"

definition vector_resize :: "u8 list \<Rightarrow> nat \<Rightarrow> error + u8 list" where
  "vector_resize v n =
     (if n > vector_max_size then Inl LengthError
      else Inr (take n v @ replicate (n - length v) 0))"

text \<open>
  \<^verbatim>\<open>FileReader::ReadBlock\<close> (\<open>sz\<close> is the parameter \<^verbatim>\<open>size\<close>). The comparison is made on \<^verbatim>\<open>u64\<close> values, so
  \<^verbatim>\<open>offset + size\<close> wraps modulo \<open>2 ^ 64\<close>.
\<close>

definition ReadBlock ::
  "device \<Rightarrow> filesystem \<Rightarrow> Path \<Rightarrow> size_t \<Rightarrow> u64 \<Rightarrow> error + u8 list" where
  "ReadBlock dev fs path sz offset =
     (let file = ifstream_open fs (Str path) True in
      if failbit file then Inr []
      else
        let fileSize = tellg file in
        if offset \<ge> (word_of_int fileSize :: u64) \<or> sz = 0
           \<or> offset + sz > (word_of_int fileSize :: u64)
        then Inr []
        else
          let file = seekg (seek_ok dev) file (sint offset) in
          if failbit file then Inr []
          else (case vector_resize [] (unat sz) of
                  Inl e \<Rightarrow> Inl e
                | Inr buffer \<Rightarrow>
                    (case istream_read (read_ok dev) file (unat sz) of
                       (file, got) \<Rightarrow>
                         if failbit file then Inr []
                         else Inr (map u8_of_char got @ drop (length got) buffer))))"

text \<open>\<^verbatim>\<open>FileReader::ReadText\<close>: the whole stream buffer, or the empty string.\<close>

definition ReadText :: "filesystem \<Rightarrow> Path \<Rightarrow> string" where
  "ReadText fs path =
     (let file = ifstream_open fs (Str path) False in
      if \<not> is_open file then [] else drop (gpos file) (buf file))"

text \<open>
  \<^verbatim>\<open>std::ofstream\<close> opened with \<^verbatim>\<open>std::ios::trunc\<close>: on success the file exists and
  is empty. The result is whether the stream is usable, and the file system after
  the open.
\<close>

definition ofstream_open_trunc :: "filesystem \<Rightarrow> string \<Rightarrow> bool \<times> filesystem" where
  "ofstream_open_trunc fs path =
     (if writable fs path \<and> nodes fs path \<noteq> Some Dir
      then (True, fs\<lparr>nodes := (nodes fs)(path \<mapsto> File [])\<rparr>)
      else (False, fs))"

text \<open>
  Insertion of a string into a freshly truncated stream: the characters become the
  file's content, unless the device fails, which sets the stream's error state.
\<close>

definition ofstream_put :: "bool \<Rightarrow> filesystem \<Rightarrow> string \<Rightarrow> string \<Rightarrow> bool \<times> filesystem" where
  "ofstream_put ok fs path s =
     (if ok then (True, fs\<lparr>nodes := (nodes fs)(path \<mapsto> File s)\<rparr>) else (False, fs))"

text \<open>\<^verbatim>\<open>FileWriter::WriteText\<close>: the stream is opened before the text is inspected.\<close>

definition WriteText :: "device \<Rightarrow> filesystem \<Rightarrow> Path \<Rightarrow> string \<Rightarrow> bool \<times> filesystem" where
  "WriteText dev fs path text =
     (case ofstream_open_trunc fs (Str path) of
        (opened, fs1) \<Rightarrow>
          if \<not> opened then (False, fs1)
          else
            let outText = text in
            if outText = [] then (False, fs1)
            else
              let outText = (if last outText \<noteq> CHR 0x0A then outText @ [CHR 0x0A] else outText)
              in ofstream_put (write_ok dev) fs1 (Str path) outText)"

text \<open>The number of line breaks a text ends with.\<close>

definition trailing_newlines :: "string \<Rightarrow> nat" where
  "trailing_newlines s = length (takeWhile (\<lambda>c. c = CHR 0x0A) (rev s))"

section \<open>StreamReader\<close>

record StreamReader =
  mStream :: ifstream
  mSize :: size_t

definition StreamReader_ctor :: "filesystem \<Rightarrow> Path \<Rightarrow> StreamReader" where
  "StreamReader_ctor fs path =
     (let s = ifstream_open fs (Str path) True in
      if is_open s
      then \<lparr>mStream = seekg True s 0, mSize = word_of_int (tellg s)\<rparr>
      else \<lparr>mStream = s, mSize = 0\<rparr>)"

definition IsOpen :: "StreamReader \<Rightarrow> bool" where
  "IsOpen r = (is_open (mStream r) \<and> good (mStream r))"

definition Seek :: "device \<Rightarrow> StreamReader \<Rightarrow> u64 \<Rightarrow> bool \<times> StreamReader" where
  "Seek dev r offset =
     (if \<not> IsOpen r then (False, r)
      else
        let s = seekg (seek_ok dev) (mStream r) (sint offset)
        in (good s, r\<lparr>mStream := s\<rparr>))"

definition Position :: "StreamReader \<Rightarrow> u64" where
  "Position r = (if \<not> IsOpen r then 0 else word_of_int (tellg (mStream r)))"

text \<open>
  \<^verbatim>\<open>StreamReader::Read\<close> (\<open>sz\<close> is the parameter \<^verbatim>\<open>size\<close>): the flag returned, the reader and the caller's vector
  afterwards; \<open>Inl\<close> when \<^verbatim>\<open>data.resize\<close> throws.
\<close>

definition Read ::
  "device \<Rightarrow> StreamReader \<Rightarrow> u8 list \<Rightarrow> size_t \<Rightarrow> error + bool \<times> StreamReader \<times> u8 list" where
  "Read dev r data sz =
     (if \<not> IsOpen r \<or> sz = 0 then Inr (False, r, data)
      else
        let currentPos = Position r;
            sz = (if currentPos + sz > mSize r then mSize r - currentPos else sz)
        in case vector_resize data (unat sz) of
             Inl e \<Rightarrow> Inl e
           | Inr data \<Rightarrow>
               (case istream_read (read_ok dev) (mStream r) (unat sz) of
                  (s, got) \<Rightarrow>
                    Inr (good s, r\<lparr>mStream := s\<rparr>,
                         map u8_of_char got @ drop (length got) data)))"

section \<open>Directories\<close>

text \<open>\<^verbatim>\<open>Path::Exists\<close> and \<^verbatim>\<open>Path::IsDirectory\<close> ask \<^verbatim>\<open>stat\<close>.\<close>

definition Exists :: "filesystem \<Rightarrow> Path \<Rightarrow> bool" where
  "Exists fs p = (nodes fs (mPath p) \<noteq> None)"

definition IsDirectory :: "filesystem \<Rightarrow> Path \<Rightarrow> bool" where
  "IsDirectory fs p = (nodes fs (mPath p) = Some Dir)"

text \<open>
  The system call behind \<^verbatim>\<open>Path::Create\<close> (\<^verbatim>\<open>CreateDirectoryA\<close>, or \<^verbatim>\<open>mkdir\<close>): it
  reports an existing entry, refuses where the system does not permit the creation
  (a missing parent, no permission), and otherwise adds the directory.
\<close>

datatype os_error = ERROR_ALREADY_EXISTS | ERROR_PATH_NOT_FOUND

definition CreateDirectoryA :: "filesystem \<Rightarrow> string \<Rightarrow> os_error + filesystem" where
  "CreateDirectoryA fs path =
     (if nodes fs path \<noteq> None then Inl ERROR_ALREADY_EXISTS
      else if writable fs path then Inr (fs\<lparr>nodes := (nodes fs)(path \<mapsto> Dir)\<rparr>)
      else Inl ERROR_PATH_NOT_FOUND)"

definition Create :: "filesystem \<Rightarrow> Path \<Rightarrow> bool \<times> filesystem" where
  "Create fs p =
     (if Exists fs p then (True, fs)
      else (case CreateDirectoryA fs (mPath p) of
              Inl err \<Rightarrow> if err = ERROR_ALREADY_EXISTS then (True, fs) else (False, fs)
            | Inr fs' \<Rightarrow> (True, fs')))"

text \<open>
  \<^verbatim>\<open>Path::CreateAll\<close> calls itself on the parent with no bound on the depth, so the
  model is a partial function: \<open>None\<close> is a call that never returns, \<open>Some (Inl e)\<close>
  one that leaves by an exception, \<open>Some (Inr (b, fs))\<close> one that returns \<open>b\<close>.
\<close>

partial_function (option) CreateAll ::
  "platform \<Rightarrow> filesystem \<Rightarrow> Path \<Rightarrow> (error + bool \<times> filesystem) option" where
  "CreateAll pf fs p =
     (if Exists fs p then Some (Inr (True, fs))
      else if mPath p \<noteq> [PATH_SEPARATOR pf] then
        (case Parent pf p of
           Inl e \<Rightarrow> Some (Inl e)
         | Inr parentPath \<Rightarrow>
             if \<not> Exists fs parentPath then
               Option.bind (CreateAll pf fs parentPath)
                 (\<lambda>r. case r of
                        Inl e \<Rightarrow> Some (Inl e)
                      | Inr (ok, fs') \<Rightarrow>
                          if \<not> ok then Some (Inr (False, fs'))
                          else Some (Inr (Create fs' p)))
             else Some (Inr (Create fs p)))
      else Some (Inr (Create fs p)))"

text \<open>
  A search handle is the list of names the enumeration has not returned yet;
  \<open>None\<close> is \<^verbatim>\<open>INVALID_HANDLE_VALUE\<close>. \<^verbatim>\<open>FindFirstFileA\<close> returns the handle and
  the first name, \<^verbatim>\<open>FindNextFileA\<close> the next name, or nothing at the end.
\<close>

type_synonym HANDLE = "string list option"

definition FindFirstFileA :: "filesystem \<Rightarrow> string \<Rightarrow> HANDLE \<times> string" where
  "FindFirstFileA fs searchPattern =
     (case listing fs searchPattern of
        Some (cFileName # rest) \<Rightarrow> (Some rest, cFileName)
      | _ \<Rightarrow> (None, []))"

definition FindNextFileA :: "HANDLE \<Rightarrow> (HANDLE \<times> string) option" where
  "FindNextFileA h =
     (case h of
        Some (cFileName # rest) \<Rightarrow> Some (Some rest, cFileName)
      | _ \<Rightarrow> None)"

record DirectoryIterator =
  mIsEnd :: bool
  mRoot :: Path
  mCurrent :: Path
  mFindHandle :: HANDLE

definition pending :: "DirectoryIterator \<Rightarrow> nat" where
  "pending it = (case mFindHandle it of None \<Rightarrow> 0 | Some names \<Rightarrow> length names)"

text \<open>
  \<^verbatim>\<open>DirectoryIterator::operator++\<close> and \<^verbatim>\<open>ProcessCurrentEntry\<close> call each other; each
  round consumes one name of the handle.
\<close>

function operator_inc :: "platform \<Rightarrow> DirectoryIterator \<Rightarrow> error + DirectoryIterator"
  and ProcessCurrentEntry ::
    "platform \<Rightarrow> DirectoryIterator \<Rightarrow> string \<Rightarrow> error + DirectoryIterator" where
  "operator_inc pf it =
     (if mIsEnd it then Inr it
      else (case FindNextFileA (mFindHandle it) of
              None \<Rightarrow> Inr (it\<lparr>mIsEnd := True\<rparr>)
            | Some (h, cFileName) \<Rightarrow>
                ProcessCurrentEntry pf (it\<lparr>mFindHandle := h\<rparr>) cFileName))"
| "ProcessCurrentEntry pf it cFileName =
     (if cFileName = ''.'' \<or> cFileName = ''..'' then operator_inc pf it
      else (case operator_div pf (mRoot it) cFileName of
              Inl e \<Rightarrow> Inl e
            | Inr p \<Rightarrow> Inr (it\<lparr>mCurrent := p\<rparr>)))"
  by pat_completeness auto
termination
  by (relation "measure (\<lambda>x. case x of
                   Inl (pf, it) \<Rightarrow> 2 * pending it + 1
                 | Inr (pf, it, cFileName) \<Rightarrow> 2 * pending it + 2)")
     (auto simp: pending_def FindNextFileA_def split: option.splits list.splits)

declare operator_inc.simps [simp del]
declare ProcessCurrentEntry.simps [simp del]

text \<open>The two constructors: the end iterator, and the iterator over a path.\<close>

definition DirectoryIterator_end :: DirectoryIterator where
  "DirectoryIterator_end =
     \<lparr>mIsEnd = True, mRoot = \<lparr>mPath = []\<rparr>, mCurrent = \<lparr>mPath = []\<rparr>, mFindHandle = None\<rparr>"

definition DirectoryIterator_ctor ::
  "platform \<Rightarrow> filesystem \<Rightarrow> Path \<Rightarrow> error + DirectoryIterator" where
  "DirectoryIterator_ctor pf fs path =
     (let it = \<lparr>mIsEnd = False, mRoot = path, mCurrent = \<lparr>mPath = []\<rparr>, mFindHandle = None\<rparr>
      in if \<not> IsDirectory fs (mRoot it) then Inr (it\<lparr>mIsEnd := True\<rparr>)
         else (case FindFirstFileA fs (Str (mRoot it) @ [CHR 0x5C, CHR ''*'']) of
                 (h, cFileName) \<Rightarrow>
                   if h = None then Inr (it\<lparr>mFindHandle := h, mIsEnd := True\<rparr>)
                   else ProcessCurrentEntry pf (it\<lparr>mFindHandle := h\<rparr>) cFileName))"

text \<open>
  What a range-based \<^verbatim>\<open>for\<close> over \<^verbatim>\<open>DirectoryEntries\<close> visits: the current entry of
  every iterator state from \<^verbatim>\<open>begin()\<close> until the state compares equal to \<^verbatim>\<open>end()\<close>,
  that is until \<^verbatim>\<open>mIsEnd\<close>. The loop ends because every increment consumes a pending
  name or reaches the end state.
\<close>

function visit :: "platform \<Rightarrow> DirectoryIterator \<Rightarrow> error + Path list" where
  "visit pf it =
     (if mIsEnd it then Inr []
      else (case operator_inc pf it of
              Inl e \<Rightarrow> Inl e
            | Inr it' \<Rightarrow>
                (case visit pf it' of
                   Inl e \<Rightarrow> Inl e
                 | Inr ps \<Rightarrow> Inr (mCurrent it # ps))))"
  by pat_completeness auto
termination
proof (relation "measure (\<lambda>(pf, it). if mIsEnd it then 0 else Suc (pending it))")
  show "wf (measure (\<lambda>(pf, it). if mIsEnd it then 0 else Suc (pending it)))"
    by simp
next
  fix pf :: platform and it it' :: DirectoryIterator
  assume live: "\<not> mIsEnd it" and step: "operator_inc pf it = Inr it'"
  have shrink:
    "(\<forall>r. \<not> mIsEnd i \<longrightarrow> operator_inc q i = Inr r \<longrightarrow> mIsEnd r \<or> pending r < pending i)"
    "(\<forall>r. \<not> mIsEnd j \<longrightarrow> ProcessCurrentEntry q j n = Inr r \<longrightarrow>
          mIsEnd r \<or> pending r \<le> pending j)"
    for q i j n
  proof (induction q i and q j n rule: operator_inc_ProcessCurrentEntry.induct)
    case (1 pf it)
    show ?case
    proof (intro allI impI)
      fix r
      assume l: "\<not> mIsEnd it" and e: "operator_inc pf it = Inr r"
      show "mIsEnd r \<or> pending r < pending it"
      proof (cases "FindNextFileA (mFindHandle it)")
        case None
        with l e show ?thesis
          by (auto simp: operator_inc.simps)
      next
        case (Some hn)
        obtain h cFileName where hn: "hn = (h, cFileName)"
          by (cases hn)
        from Some hn have less: "pending (it\<lparr>mFindHandle := h\<rparr>) < pending it"
          by (auto simp: pending_def FindNextFileA_def split: option.splits list.splits)
        from l e Some hn
        have "ProcessCurrentEntry pf (it\<lparr>mFindHandle := h\<rparr>) cFileName = Inr r"
          by (simp add: operator_inc.simps)
        with "1.IH" [OF l Some hn [symmetric]] l
        have "mIsEnd r \<or> pending r \<le> pending (it\<lparr>mFindHandle := h\<rparr>)"
          by simp
        with less show ?thesis
          by auto
      qed
    qed
  next
    case (2 pf it cFileName)
    show ?case
    proof (intro allI impI)
      fix r
      assume l: "\<not> mIsEnd it" and e: "ProcessCurrentEntry pf it cFileName = Inr r"
      show "mIsEnd r \<or> pending r \<le> pending it"
      proof (cases "cFileName = ''.'' \<or> cFileName = ''..''")
        case True
        with e have "operator_inc pf it = Inr r"
          by (simp add: ProcessCurrentEntry.simps)
        with "2.IH" [OF True] l show ?thesis
          by fastforce
      next
        case False
        with e show ?thesis
          by (auto simp: ProcessCurrentEntry.simps pending_def split: sum.splits)
      qed
    qed
  qed
  from shrink(1) [of it pf] live step have "mIsEnd it' \<or> pending it' < pending it"
    by blast
  with live show "((pf, it'), (pf, it))
      \<in> measure (\<lambda>(pf, it). if mIsEnd it then 0 else Suc (pending it))"
    by auto
qed

declare visit.simps [simp del]

definition Entries :: "platform \<Rightarrow> filesystem \<Rightarrow> Path \<Rightarrow> error + Path list" where
  "Entries pf fs path =
     (case DirectoryIterator_ctor pf fs path of
        Inl e \<Rightarrow> Inl e
      | Inr it \<Rightarrow> visit pf it)"

text \<open>
  The segments of a path string: the pieces between separators. \<open>concrete_fs\<close> builds a
  file system in which every path may be opened.
\<close>

fun segments :: "char \<Rightarrow> string \<Rightarrow> string list" where
  "segments sep [] = [[]]"
| "segments sep (c # cs) =
     (if c = sep then [] # segments sep cs
      else (case segments sep cs of
              [] \<Rightarrow> [[c]]
            | w # ws \<Rightarrow> (c # w) # ws))"

definition concrete_fs :: "(string \<times> node) list \<Rightarrow> (string \<times> string list) list \<Rightarrow> filesystem" where
  "concrete_fs ns ls =
     \<lparr>nodes = map_of ns, listing = map_of ls, readable = (\<lambda>p. True), writable = (\<lambda>p. True)\<rparr>"

definition no_faults :: device where
  "no_faults = \<lparr>seek_ok = True, read_ok = True, write_ok = True\<rparr>"


text \<open>
  The names \<^verbatim>\<open>.\<close> and \<^verbatim>\<open>..\<close>, and the names the system enumerates for a directory:
  those of the search pattern \<^verbatim>\<open>mRoot.Str() + "\\*"\<close>, and none where the path is not
  a directory or the search cannot be opened.
\<close>

definition pseudo_entry :: "string \<Rightarrow> bool" where
  "pseudo_entry cFileName = (cFileName = ''.'' \<or> cFileName = ''..'')"

definition enumerated :: "filesystem \<Rightarrow> Path \<Rightarrow> string list" where
  "enumerated fs root =
     (if IsDirectory fs root
      then (case listing fs (Str root @ [CHR 0x5C, CHR ''*'']) of
              None \<Rightarrow> []
            | Some names \<Rightarrow> names)
      else [])"

text \<open>
  A file name as an enumeration reports it: not empty and free of slashes and
  backslashes.
\<close>

definition plain_name :: "string \<Rightarrow> bool" where
  "plain_name cFileName =
     (cFileName \<noteq> [] \<and> CHR 0x5C \<notin> set cFileName \<and> CHR 0x2F \<notin> set cFileName)"

text \<open>
  What the specification calls normalized. The parts of a normalized path are not
  empty, are not \<^verbatim>\<open>.\<close>, hold no separator, and are \<^verbatim>\<open>..\<close> only in front of all others
  (where no earlier part is left to resolve them against); \<open>render\<close> is how
  \<^verbatim>\<open>Normalize\<close> writes parts out; and a normalized string is one that \<^verbatim>\<open>Normalize\<close>
  returns as it is.
\<close>

definition canonical_parts :: "char \<Rightarrow> string list \<Rightarrow> bool" where
  "canonical_parts sep parts =
     (list_all (\<lambda>part. part \<noteq> [] \<and> part \<noteq> ''.'' \<and> sep \<notin> set part) parts
      \<and> ''..'' \<notin> set (dropWhile (\<lambda>part. part = ''..'') parts))"

definition render :: "char \<Rightarrow> string list \<Rightarrow> string" where
  "render sep parts = concat (map (\<lambda>part. sep # part) parts)"

definition normalized :: "platform \<Rightarrow> string \<Rightarrow> bool" where
  "normalized pf s = (Normalize pf s = Inr s)"

section \<open>Properties of Path\<close>

lemma X_TOSTR_PATH_SEPARATOR:
  "X_TOSTR (PATH_SEPARATOR Windows) = ''92''" "X_TOSTR (PATH_SEPARATOR Posix) = ''47''"
  by code_simp+

lemma Path_ctor_X_TOSTR:
  "Path_ctor Windows ''92'' = Inr \<lparr>mPath = ''92''\<rparr>"
  "Path_ctor Posix ''47'' = Inr \<lparr>mPath = ''/47''\<rparr>"
  by code_simp+

text \<open>
  Where the last separator is at a position other than 0, \<^verbatim>\<open>Parent()\<close> is the path
  constructed from the characters before it.
\<close>

lemma Parent_inner_separator:
  assumes "find_last_of (mPath p) (PATH_SEPARATOR pf) = Some i" and "i \<noteq> 0"
  shows "Parent pf p = Path_ctor pf (take i (mPath p))"
  using assms by (simp add: Parent_def substr_def)

text \<open>
  Where there is no separator, or the last one is the first character, \<^verbatim>\<open>Parent()\<close> is
  the path constructed from the decimal code of the separator, on either platform.
\<close>

lemma Parent_no_inner_separator:
  assumes "find_last_of (mPath p) (PATH_SEPARATOR pf) = None
           \<or> find_last_of (mPath p) (PATH_SEPARATOR pf) = Some 0"
  shows "Parent pf p =
           Inr \<lparr>mPath = (case pf of Windows \<Rightarrow> ''92'' | Posix \<Rightarrow> ''/47'')\<rparr>"
  using assms
  by (cases pf) (auto simp: Parent_def X_TOSTR_PATH_SEPARATOR Path_ctor_X_TOSTR)

text \<open>
  C1. \<^verbatim>\<open>Path("foo").Parent()\<close> on Windows and \<^verbatim>\<open>Path("/foo").Parent()\<close> on the other
  branch: the path has no separator beyond position 0, and the result is not the
  root separator but the path named after the separator's character code, because
  \<^verbatim>\<open>X_TOSTR\<close> is \<^verbatim>\<open>std::to_string\<close>.
\<close>

theorem Parent_of_plain_name:
  "Path_ctor Windows ''foo'' = Inr \<lparr>mPath = ''foo''\<rparr>
   \<and> Parent Windows \<lparr>mPath = ''foo''\<rparr> = Inr \<lparr>mPath = ''92''\<rparr>
   \<and> ''92'' \<noteq> [PATH_SEPARATOR Windows]
   \<and> Path_ctor Posix ''/foo'' = Inr \<lparr>mPath = ''/foo''\<rparr>
   \<and> Parent Posix \<lparr>mPath = ''/foo''\<rparr> = Inr \<lparr>mPath = ''/47''\<rparr>
   \<and> ''/47'' \<noteq> [PATH_SEPARATOR Posix]"
  by code_simp



text \<open>
  \<^verbatim>\<open>RelativeTo\<close> where the base does not end with a separator: a path that does not
  begin with the base comes back unchanged, and one that continues beyond the base
  gives the path constructed from the rest.
\<close>

lemma RelativeTo_not_prefix:
  assumes "Str base = [] \<or> last (Str base) \<noteq> PATH_SEPARATOR pf"
    and "take (length (Str base)) (Str p) \<noteq> Str base"
  shows "RelativeTo pf p base = Inr p"
  using assms by (auto simp: RelativeTo_def Let_def substr_def)

lemma RelativeTo_strips_prefix:
  assumes "Str base = [] \<or> last (Str base) \<noteq> PATH_SEPARATOR pf"
    and "Str p = Str base @ rest" and "rest \<noteq> []"
  shows "RelativeTo pf p base = Path_ctor pf rest"
  using assms by (auto simp: RelativeTo_def Let_def substr_def substr_from_def)

lemma RelativeTo_same_string:
  assumes "Str base = [] \<or> last (Str base) \<noteq> PATH_SEPARATOR pf"
    and "Str p = Str base"
  shows "RelativeTo pf p base = Path_ctor pf ''.''"
  using assms by (auto simp: RelativeTo_def Let_def substr_def substr_from_def)

lemma Path_ctor_dot:
  "Path_ctor Windows ''.'' = Inl OutOfRange"
  "Path_ctor Posix ''.'' = Inr \<lparr>mPath = [PATH_SEPARATOR Posix]\<rparr>"
  by code_simp+

text \<open>
  C3. A path relative to a base with the same string: \<^verbatim>\<open>Path(".")\<close> is constructed, and
  the constructor drops the \<^verbatim>\<open>.\<close> segment, so the call throws on Windows and gives
  the root on the other branch; on neither is the result the path \<^verbatim>\<open>"."\<close>.
\<close>

theorem RelativeTo_exact_match:
  "RelativeTo Windows \<lparr>mPath = ''a''\<rparr> \<lparr>mPath = ''a''\<rparr> = Inl OutOfRange
   \<and> RelativeTo Posix \<lparr>mPath = ''/a''\<rparr> \<lparr>mPath = ''/a''\<rparr> = Inr \<lparr>mPath = ''/''\<rparr>"
  by code_simp

text \<open>
  C6. The assigning overload of \<^verbatim>\<open>Join\<close> stores the joined string as it is:
  \<^verbatim>\<open>Path p("a"); p.Join(".")\<close> leaves a \<^verbatim>\<open>.\<close> segment in the stored string, which
  \<^verbatim>\<open>Normalize\<close> would change, while the other overload returns the normalized path.
\<close>

theorem Join_mut_keeps_dot_segment:
  "Path_ctor Windows ''a'' = Inr \<lparr>mPath = ''a''\<rparr>
   \<and> Join_mut Windows \<lparr>mPath = ''a''\<rparr> ''.'' = \<lparr>mPath = ''a'' @ [CHR 0x5C] @ ''.''\<rparr>
   \<and> ''.'' \<in> set (segments (PATH_SEPARATOR Windows)
                     (mPath (Join_mut Windows \<lparr>mPath = ''a''\<rparr> ''.'')))
   \<and> Normalize Windows (mPath (Join_mut Windows \<lparr>mPath = ''a''\<rparr> ''.'')) = Inr ''a''
   \<and> \<not> normalized Windows (mPath (Join_mut Windows \<lparr>mPath = ''a''\<rparr> ''.''))
   \<and> Join_const Windows \<lparr>mPath = ''a''\<rparr> ''.'' = Inr \<lparr>mPath = ''a''\<rparr>"
  by code_simp

text \<open>
  The last segment survives normalization: a raw path that ends, after a separator or
  at its start, with a name that is neither empty nor \<^verbatim>\<open>.\<close> nor \<^verbatim>\<open>..\<close> and holds no
  separator is normalized without an exception, to a string that ends with that name,
  at its start or after a separator.
\<close>

lemma find_idx_None_iff: "find_idx c s = None \<longleftrightarrow> c \<notin> set s"
  by (induction s) auto

lemma find_idx_Some_less: "find_idx c s = Some i \<Longrightarrow> i < length s \<and> s ! i = c"
  by (induction s arbitrary: i) (auto split: if_splits)

lemma find_idx_append_in: "c \<in> set xs \<Longrightarrow> find_idx c (xs @ ys) = find_idx c xs"
  by (induction xs) auto

lemma find_idx_append_notin:
  "c \<notin> set xs \<Longrightarrow>
     find_idx c (xs @ ys) = (case find_idx c ys of None \<Rightarrow> None | Some i \<Rightarrow> Some (length xs + i))"
  by (induction xs) (auto split: option.splits)

lemma Normalize_loop_final_segment:
  assumes "raw = raw0 @ n" and "n \<noteq> []" and "sep \<notin> set n" and "n \<noteq> ''.''" and "n \<noteq> ''..''"
    and "raw0 = [] \<or> last raw0 = sep" and "start \<le> length raw0"
  shows "\<exists>ps. Normalize_loop sep raw start parts = ps @ [n]"
  using assms
proof (induction sep raw start parts rule: Normalize_loop.induct)
  case (1 sep rawPath start parts)
  note raw = "1.prems"(1)
  have lt: "start < length rawPath"
    using "1.prems" by (cases n) auto
  let ?e = "find_end sep rawPath start"
  let ?part = "take (?e - start) (drop start rawPath)"
  have unfold: "Normalize_loop sep rawPath start parts
      = Normalize_loop sep rawPath (?e + 1) (Normalize_step parts ?part)"
    using lt by (subst Normalize_loop.simps) simp
  have dr: "drop start rawPath = drop start raw0 @ n"
    using "1.prems" by simp
  show ?case
  proof (cases "sep \<in> set (drop start raw0)")
    case True
    then obtain i where i: "find_idx sep (drop start raw0) = Some i"
      by (cases "find_idx sep (drop start raw0)") (auto simp: find_idx_None_iff)
    then have "i < length (drop start raw0)"
      by (auto dest: find_idx_Some_less)
    moreover have "?e = start + i"
      using True i by (simp add: find_end_def find_char_def dr find_idx_append_in)
    ultimately have "?e + 1 \<le> length raw0"
      by simp
    from "1.IH" [OF lt raw "1.prems"(2-6) this] unfold show ?thesis
      by simp
  next
    case False
    have at_end: "start = length raw0"
    proof (rule ccontr)
      assume "start \<noteq> length raw0"
      with "1.prems"(7) have s: "start < length raw0"
        by simp
      then have "raw0 \<noteq> []"
        by auto
      with "1.prems"(6) have "last raw0 = sep"
        by simp
      moreover have "last (drop start raw0) = last raw0"
        using s by simp
      moreover have "drop start raw0 \<noteq> []"
        using s by simp
      ultimately have "sep \<in> set (drop start raw0)"
        by (metis last_in_set)
      with False show False
        by simp
    qed
    then have dn: "drop start rawPath = n"
      using raw by simp
    have "find_char rawPath sep start = None"
      using "1.prems"(3) by (simp add: find_char_def dn find_idx_None_iff)
    then have e: "?e = length rawPath"
      by (simp add: find_end_def)
    have "?e - start = length n"
      unfolding e using at_end raw by simp
    then have part: "?part = n"
      by (simp add: dn)
    have step: "Normalize_step parts n = parts @ [n]"
      using "1.prems"(2,4,5) by (simp add: Normalize_step_def)
    have "Normalize_loop sep rawPath (length rawPath + 1) (parts @ [n]) = parts @ [n]"
      by (subst Normalize_loop.simps) simp
    with unfold e part step show ?thesis
      by simp
  qed
qed

lemma Normalize_final_segment:
  assumes "n \<noteq> []" and "PATH_SEPARATOR pf \<notin> set n" and "n \<noteq> ''.''" and "n \<noteq> ''..''"
    and "raw0 = [] \<or> last raw0 = PATH_SEPARATOR pf"
  shows "\<exists>x. Normalize pf (raw0 @ n) = Inr (x @ n) \<and> (x = [] \<or> last x = PATH_SEPARATOR pf)"
proof -
  let ?sep = "PATH_SEPARATOR pf"
  obtain ps where ps: "Normalize_loop ?sep (raw0 @ n) 0 [] = ps @ [n]"
    using Normalize_loop_final_segment [OF refl assms(1-5), of 0 "[]"] by auto
  let ?pre = "concat (map (\<lambda>part. ?sep # part) ps)"
  have result: "concat (map (\<lambda>part. ?sep # part) (ps @ [n])) = (?pre @ [?sep]) @ n"
    by simp
  show ?thesis
  proof (cases pf)
    case Posix
    have "Normalize pf (raw0 @ n) = Inr ((?pre @ [?sep]) @ n)"
      using assms(1) unfolding Normalize_def Let_def ps result by (simp add: Posix)
    then show ?thesis
      by (intro exI [of _ "?pre @ [?sep]"]) simp
  next
    case Windows
    have "Normalize pf (raw0 @ n) = Inr (tl (?pre @ [?sep]) @ n)"
      using assms(1) unfolding Normalize_def Let_def ps result
      by (simp add: Windows substr_def drop_Suc tl_append split: list.splits)
    moreover have "tl (?pre @ [?sep]) = [] \<or> last (tl (?pre @ [?sep])) = ?sep"
      by (cases ?pre) simp_all
    ultimately show ?thesis
      by (intro exI [of _ "tl (?pre @ [?sep])"]) simp
  qed
qed

lemma find_last_of_None_iff: "find_last_of s c = None \<longleftrightarrow> c \<notin> set s"
  by (simp add: find_last_of_def find_idx_None_iff)

lemma find_last_of_split:
  assumes "c \<notin> set y"
  shows "find_last_of (x @ c # y) c = Some (length x)"
proof -
  have "find_idx c (rev y @ c # rev x) = Some (length y)"
    using assms by (simp add: find_idx_append_notin)
  then show ?thesis
    by (simp add: find_last_of_def)
qed

text \<open>
  \<^verbatim>\<open>Filename\<close> of a string that ends with a plain name: the name, preceded by what
  follows the last backslash, or else the last slash, before it.
\<close>

lemma Filename_suffix:
  assumes "CHR 0x5C \<notin> set n" and "CHR 0x2F \<notin> set n"
  shows "\<exists>w y. x = w @ y \<and> Filename \<lparr>mPath = x @ n\<rparr> = y @ n
               \<and> (CHR 0x5C \<in> set x \<longrightarrow> CHR 0x5C \<notin> set y)"
proof (cases "CHR 0x5C \<in> set x")
  case True
  then obtain w y where x: "x = w @ CHR 0x5C # y" and y: "CHR 0x5C \<notin> set y"
    by (auto dest: split_list_last)
  have "find_last_of (w @ CHR 0x5C # (y @ n)) (CHR 0x5C) = Some (length w)"
    using y assms(1) by (intro find_last_of_split) simp
  then have "Filename \<lparr>mPath = x @ n\<rparr> = y @ n"
    by (simp add: Filename_def x)
  with x y show ?thesis
    by (intro exI [of _ "w @ [CHR 0x5C]"] exI [of _ y]) simp
next
  case False
  then have nb: "find_last_of (x @ n) (CHR 0x5C) = None"
    using assms(1) by (simp add: find_last_of_None_iff)
  show ?thesis
  proof (cases "CHR 0x2F \<in> set x")
    case True
    then obtain w y where x: "x = w @ CHR 0x2F # y" and y: "CHR 0x2F \<notin> set y"
      by (auto dest: split_list_last)
    have "find_last_of (w @ CHR 0x2F # (y @ n)) (CHR 0x2F) = Some (length w)"
      using y assms(2) by (intro find_last_of_split) simp
    then have "Filename \<lparr>mPath = x @ n\<rparr> = y @ n"
      using nb by (simp add: Filename_def x)
    with x False show ?thesis
      by (intro exI [of _ "w @ [CHR 0x2F]"] exI [of _ y]) simp
  next
    case no_slash: False
    then have "find_last_of (x @ n) (CHR 0x2F) = None"
      using assms(2) by (simp add: find_last_of_None_iff)
    with nb have "Filename \<lparr>mPath = x @ n\<rparr> = x @ n"
      by (simp add: Filename_def)
    with False show ?thesis
      by (intro exI [of _ "[]"] exI [of _ x]) simp
  qed
qed

text \<open>
  Joining a non-empty path with a plain name other than \<^verbatim>\<open>.\<close> and \<^verbatim>\<open>..\<close> does not throw;
  the file name of the result is not \<^verbatim>\<open>.\<close> or \<^verbatim>\<open>..\<close>, and on Windows it is the name.
\<close>

lemma operator_div_plain_name:
  assumes "mPath root \<noteq> []" and "plain_name n" and "\<not> pseudo_entry n"
  shows "\<exists>x. operator_div pf root n = Inr \<lparr>mPath = x @ n\<rparr>
             \<and> (x = [] \<or> last x = PATH_SEPARATOR pf)"
proof -
  let ?sep = "PATH_SEPARATOR pf"
  have n: "n \<noteq> []" "?sep \<notin> set n" "n \<noteq> ''.''" "n \<noteq> ''..''"
    using assms(2,3) by (cases pf; simp add: plain_name_def pseudo_entry_def PATH_SEPARATOR_def)+
  obtain raw0 where j: "Join_static pf (mPath root) n = raw0 @ n" and r: "raw0 = [] \<or> last raw0 = ?sep"
  proof (cases "last (mPath root) = ?sep")
    case True
    with assms(1) n(1) show ?thesis
      by (intro that [of "mPath root"]) (simp_all add: Join_static_def)
  next
    case False
    with assms(1) n(1) show ?thesis
      by (intro that [of "mPath root @ [?sep]"]) (simp_all add: Join_static_def)
  qed
  from Normalize_final_segment [OF n r] obtain x
    where "Normalize pf (raw0 @ n) = Inr (x @ n)" and "x = [] \<or> last x = ?sep"
    by auto
  then show ?thesis
    by (intro exI [of _ x]) (simp add: operator_div_def Path_ctor_def j)
qed

lemma Filename_operator_div:
  assumes "mPath root \<noteq> []" and "plain_name n" and "\<not> pseudo_entry n"
    and "operator_div pf root n = Inr p"
  shows "\<not> pseudo_entry (Filename p) \<and> (pf = Windows \<longrightarrow> Filename p = n)"
proof -
  from operator_div_plain_name [OF assms(1-3), of pf] assms(4) obtain x
    where p: "p = \<lparr>mPath = x @ n\<rparr>" and x: "x = [] \<or> last x = PATH_SEPARATOR pf"
    by auto
  have n: "CHR 0x5C \<notin> set n" "CHR 0x2F \<notin> set n" "n \<noteq> []"
    using assms(2) by (simp_all add: plain_name_def)
  from Filename_suffix [OF n(1,2), of x] obtain w y
    where xy: "x = w @ y" and f: "Filename p = y @ n"
      and b: "CHR 0x5C \<in> set x \<longrightarrow> CHR 0x5C \<notin> set y"
    unfolding p by auto
  have sep: "PATH_SEPARATOR pf = CHR 0x5C \<or> PATH_SEPARATOR pf = CHR 0x2F"
    by (cases pf) (simp_all add: PATH_SEPARATOR_def)
  have first: "\<not> pseudo_entry (Filename p)"
  proof (cases "y = []")
    case True
    with f assms(3) show ?thesis
      by simp
  next
    case False
    with xy x have "last y = PATH_SEPARATOR pf"
      by auto
    with False have "PATH_SEPARATOR pf \<in> set (y @ n)"
      by (metis Un_iff last_in_set set_append)
    with f have mem: "PATH_SEPARATOR pf \<in> set (Filename p)"
      by simp
    show ?thesis
    proof
      assume "pseudo_entry (Filename p)"
      then have "set (Filename p) \<subseteq> {CHR ''.''}"
        by (auto simp: pseudo_entry_def)
      with mem sep show False
        by auto
    qed
  qed
  have second: "Filename p = n" if w: "pf = Windows"
  proof (cases "y = []")
    case True
    with f show ?thesis
      by simp
  next
    case False
    with xy x w have l: "last y = CHR 0x5C" and "last x = CHR 0x5C" and "x \<noteq> []"
      by (auto simp: PATH_SEPARATOR_def)
    then have "CHR 0x5C \<in> set x"
      by (metis last_in_set)
    with b have "CHR 0x5C \<notin> set y"
      by simp
    with False l show ?thesis
      by (metis last_in_set)
  qed
  from first second show ?thesis
    by simp
qed

text \<open>
  The parts \<^verbatim>\<open>Normalize\<close> collects are canonical, and its result is their rendering: on
  Windows without the first separator, and an exception where there is no part.
\<close>

lemma find_idx_take: "find_idx c s = Some i \<Longrightarrow> c \<notin> set (take i s)"
  by (induction s arbitrary: i) (auto split: if_splits)

lemma dotdot_front_all:
  assumes "''..'' \<notin> set (dropWhile (\<lambda>part. part = ''..'') (xs @ ''..'' # ys))"
  shows "\<forall>x \<in> set xs. x = ''..''"
proof (rule ccontr)
  assume "\<not> (\<forall>x \<in> set xs. x = ''..'')"
  then have "dropWhile (\<lambda>part. part = ''..'') (xs @ ''..'' # ys)
      = dropWhile (\<lambda>part. part = ''..'') xs @ ''..'' # ys"
    by (auto simp: dropWhile_append)
  with assms show False
    by simp
qed

lemma canonical_parts_step:
  assumes "canonical_parts sep parts" and "sep \<notin> set part"
  shows "canonical_parts sep (Normalize_step parts part)"
proof (cases "part = ''..'' \<and> parts \<noteq> [] \<and> last parts \<noteq> ''..''")
  case True
  then obtain ys x where p: "parts = ys @ [x]" and x: "x \<noteq> ''..''"
    by (cases parts rule: rev_cases) auto
  have "set (dropWhile (\<lambda>part. part = ''..'') ys)
               \<subseteq> set (dropWhile (\<lambda>part. part = ''..'') parts)"
  proof (cases "\<forall>y \<in> set ys. y = ''..''")
    case True
    then have "dropWhile (\<lambda>part. part = ''..'') ys = []"
      by simp
    then show ?thesis
      by (simp only: list.set empty_subsetI)
  next
    case False
    then show ?thesis
      unfolding p by (auto simp: dropWhile_append)
  qed
  with assms(1) True show ?thesis
    by (auto simp: canonical_parts_def Normalize_step_def p)
next
  case False
  show ?thesis
  proof (cases "part \<noteq> [] \<and> part \<noteq> ''.''")
    case skip: False
    with False assms(1) show ?thesis
      by (auto simp: Normalize_step_def)
  next
    case True
    with False have st: "Normalize_step parts part = parts @ [part]"
      by (auto simp: Normalize_step_def)
    have front: "''..'' \<notin> set (dropWhile (\<lambda>part. part = ''..'') (parts @ [part]))"
    proof (cases "part = ''..''")
      case ne: False
      with assms(1) show ?thesis
        by (auto simp: canonical_parts_def dropWhile_append)
    next
      case dd: True
      with False have "parts = [] \<or> last parts = ''..''"
        by auto
      then have "\<forall>x \<in> set parts. x = ''..''"
      proof
        assume "parts = []"
        then show ?thesis
          by simp
      next
        assume l: "last parts = ''..''"
        show ?thesis
        proof (cases parts rule: rev_cases)
          case Nil
          then show ?thesis
            by simp
        next
          case (snoc ys y)
          with l have "parts = ys @ ''..'' # []"
            by simp
          with assms(1) have "\<forall>x \<in> set ys. x = ''..''"
            by (intro dotdot_front_all [of ys "[]"]) (simp add: canonical_parts_def)
          with snoc l show ?thesis
            by auto
        qed
      qed
      with dd show ?thesis
        by (simp add: dropWhile_append)
    qed
    with assms True show ?thesis
      unfolding st by (auto simp: canonical_parts_def)
  qed
qed

lemma find_end_part:
  assumes "start < length raw"
  shows "sep \<notin> set (take (find_end sep raw start - start) (drop start raw))"
proof (cases "find_idx sep (drop start raw)")
  case None
  then show ?thesis
    by (auto simp: find_idx_None_iff dest: in_set_takeD)
next
  case (Some i)
  then have "find_end sep raw start - start = i"
    by (simp add: find_end_def find_char_def)
  with find_idx_take [OF Some] show ?thesis
    by simp
qed

lemma canonical_parts_loop:
  "canonical_parts sep parts \<Longrightarrow> canonical_parts sep (Normalize_loop sep raw start parts)"
proof (induction sep raw start parts rule: Normalize_loop.induct)
  case (1 sep rawPath start parts)
  show ?case
  proof (cases "start < length rawPath")
    case False
    with "1.prems" show ?thesis
      by (subst Normalize_loop.simps) simp
  next
    case True
    have "canonical_parts sep
            (Normalize_step parts
               (take (find_end sep rawPath start - start) (drop start rawPath)))"
      using "1.prems" find_end_part [OF True] by (rule canonical_parts_step)
    from "1.IH" [OF True this] True show ?thesis
      by (subst Normalize_loop.simps) simp
  qed
qed

lemma Normalize_render:
  "Normalize pf raw =
     (let parts = Normalize_loop (PATH_SEPARATOR pf) raw 0 []
      in case pf of
           Windows \<Rightarrow> if parts = [] then Inl OutOfRange
                      else Inr (tl (render (PATH_SEPARATOR pf) parts))
         | Posix \<Rightarrow> Inr (if parts = [] then [PATH_SEPARATOR pf]
                          else render (PATH_SEPARATOR pf) parts))"
proof -
  let ?ps = "Normalize_loop (PATH_SEPARATOR pf) raw 0 []"
  have c: "canonical_parts (PATH_SEPARATOR pf) ?ps"
    by (intro canonical_parts_loop) (simp add: canonical_parts_def)
  show ?thesis
  proof (cases ?ps)
    case Nil
    then show ?thesis
      by (cases pf) (simp_all add: Normalize_def Let_def render_def substr_def)
  next
    case (Cons p ps)
    with c have "p \<noteq> []"
      by (simp add: canonical_parts_def)
    then obtain a as where "p = a # as"
      by (cases p) auto
    with Cons show ?thesis
      by (cases pf) (simp_all add: Normalize_def Let_def render_def substr_def drop_Suc)
  qed
qed

text \<open>
  Normalizing the rendering of canonical parts collects the same parts again, so
  \<^verbatim>\<open>Normalize\<close> is idempotent, and every path that comes out of the constructor holds
  a normalized string: those of the const \<^verbatim>\<open>Join\<close>, \<^verbatim>\<open>operator/\<close>, \<^verbatim>\<open>Parent\<close>,
  \<^verbatim>\<open>ReplaceExtension\<close> and \<^verbatim>\<open>RelativeTo\<close>.
\<close>

lemma loop_segment:
  assumes "start < length raw" and "drop start raw = seg @ rest" and "sep \<notin> set seg"
    and "rest = [] \<or> hd rest = sep"
  shows "Normalize_loop sep raw start acc
           = Normalize_loop sep raw (start + length seg + 1) (Normalize_step acc seg)"
proof -
  have len: "length raw - start = length seg + length rest"
    using arg_cong [OF assms(2), of length] by simp
  have e: "find_end sep raw start = start + length seg"
  proof (cases rest)
    case Nil
    with assms(3) have "find_idx sep (drop start raw) = None"
      by (simp add: assms(2) find_idx_None_iff)
    with len Nil assms(1) show ?thesis
      by (simp add: find_end_def find_char_def)
  next
    case (Cons r rs)
    with assms(4) have "find_idx sep (drop start raw) = Some (length seg)"
      using assms(3) by (simp add: assms(2) find_idx_append_notin)
    then show ?thesis
      by (simp add: find_end_def find_char_def)
  qed
  have "take (find_end sep raw start - start) (drop start raw) = seg"
    by (simp add: e assms(2))
  with assms(1) e show ?thesis
    by (subst Normalize_loop.simps) simp
qed

lemma loop_render:
  "qs \<noteq> [] \<Longrightarrow> \<forall>q \<in> set qs. q \<noteq> [] \<and> sep \<notin> set q \<Longrightarrow> drop start raw = tl (render sep qs) \<Longrightarrow>
     Normalize_loop sep raw start acc = foldl Normalize_step acc qs"
proof (induction qs arbitrary: start acc)
  case Nil
  then show ?case
    by simp
next
  case (Cons q qs)
  have dr: "drop start raw = q @ render sep qs"
    using Cons.prems(3) by (simp add: render_def)
  have q: "q \<noteq> []" "sep \<notin> set q"
    using Cons.prems(2) by simp_all
  have lt: "start < length raw"
    using dr q(1) by (cases "start < length raw") auto
  have tail: "render sep qs = [] \<or> hd (render sep qs) = sep"
    by (cases qs) (simp_all add: render_def)
  have step: "Normalize_loop sep raw start acc
      = Normalize_loop sep raw (start + length q + 1) (Normalize_step acc q)"
    using lt dr q(2) tail by (rule loop_segment)
  show ?case
  proof (cases qs)
    case Nil
    then have "length raw = start + length q"
      using arg_cong [OF dr, of length] lt by (simp add: render_def)
    then have "Normalize_loop sep raw (start + length q + 1) (Normalize_step acc q)
        = Normalize_step acc q"
      by (subst Normalize_loop.simps) simp
    with step Nil show ?thesis
      by simp
  next
    case (Cons q' qs')
    have "drop (start + length q + 1) raw = drop (length q + 1) (drop start raw)"
      by (simp add: add.commute add.left_commute)
    also have "\<dots> = tl (render sep qs)"
      unfolding dr by (simp add: drop_Suc)
    finally have "Normalize_loop sep raw (start + length q + 1) (Normalize_step acc q)
        = foldl Normalize_step (Normalize_step acc q) qs"
      using Cons.prems(2) Cons by (intro Cons.IH) simp_all
    with step show ?thesis
      by simp
  qed
qed

lemma foldl_step_canonical:
  "canonical_parts sep (acc @ qs) \<Longrightarrow> foldl Normalize_step acc qs = acc @ qs"
proof (induction qs arbitrary: acc)
  case Nil
  then show ?case
    by simp
next
  case (Cons q qs)
  have q: "q \<noteq> []" "q \<noteq> ''.''"
    using Cons.prems by (simp_all add: canonical_parts_def)
  have "\<not> (q = ''..'' \<and> acc \<noteq> [] \<and> last acc \<noteq> ''..'')"
  proof
    assume a: "q = ''..'' \<and> acc \<noteq> [] \<and> last acc \<noteq> ''..''"
    with Cons.prems have "\<forall>x \<in> set acc. x = ''..''"
      by (intro dotdot_front_all [of acc qs]) (simp add: canonical_parts_def)
    with a show False
      by (metis last_in_set)
  qed
  with q have "Normalize_step acc q = acc @ [q]"
    by (auto simp: Normalize_step_def)
  with Cons.IH [of "acc @ [q]"] Cons.prems show ?case
    by simp
qed

lemma Normalize_idempotent:
  assumes "Normalize pf raw = Inr s"
  shows "Normalize pf s = Inr s"
proof -
  let ?sep = "PATH_SEPARATOR pf"
  let ?ps = "Normalize_loop ?sep raw 0 []"
  have c: "canonical_parts ?sep ?ps"
    by (intro canonical_parts_loop) (simp add: canonical_parts_def)
  then have each: "\<forall>q \<in> set ?ps. q \<noteq> [] \<and> ?sep \<notin> set q"
    by (auto simp: canonical_parts_def list_all_iff)
  have fold: "foldl Normalize_step [] ?ps = ?ps"
    using c foldl_step_canonical [of ?sep "[]" ?ps] by simp
  show ?thesis
  proof (cases "?ps = []")
    case True
    with assms have pf: "pf = Posix" and s: "s = [?sep]"
      by (cases pf; simp add: Normalize_render Let_def)+
    have "Normalize_loop ?sep [?sep] 0 [] = []"
      by (subst Normalize_loop.simps, simp add: find_end_def find_char_def Normalize_step_def,
          subst Normalize_loop.simps, simp)
    then show ?thesis
      unfolding s by (simp add: Normalize_render Let_def pf)
  next
    case False
    show ?thesis
    proof (cases pf)
      case Windows
      with assms False have s: "s = tl (render ?sep ?ps)"
        by (simp add: Normalize_render Let_def)
      have "Normalize_loop ?sep s 0 [] = foldl Normalize_step [] ?ps"
        using False each by (rule loop_render) (simp add: s)
      with fold False show ?thesis
        by (simp add: Normalize_render Let_def Windows s)
    next
      case Posix
      with assms False have s: "s = render ?sep ?ps"
        by (simp add: Normalize_render Let_def)
      obtain p ps where ps: "?ps = p # ps"
        using False by (cases ?ps) auto
      have shape: "s = ?sep # tl s"
        unfolding s ps by (simp add: render_def)
      have "Normalize_loop ?sep s 0 [] = Normalize_loop ?sep s (0 + length ([] :: string) + 1)
                (Normalize_step [] [])"
      proof (rule loop_segment)
        show "0 < length s"
          using shape by (cases s) auto
        show "drop 0 s = [] @ s"
          by simp
        show "?sep \<notin> set []"
          by simp
        show "s = [] \<or> hd s = ?sep"
          using shape by (cases s) auto
      qed
      also have "\<dots> = Normalize_loop ?sep s 1 []"
        by (simp add: Normalize_step_def)
      also have "\<dots> = foldl Normalize_step [] ?ps"
        using False each by (rule loop_render) (simp add: s drop_Suc)
      finally show ?thesis
        using fold False by (simp add: Normalize_render Let_def Posix s)
    qed
  qed
qed

lemma Path_ctor_normalized:
  "Path_ctor pf raw = Inr p \<Longrightarrow> normalized pf (mPath p)"
  by (auto simp: Path_ctor_def normalized_def split: sum.splits dest: Normalize_idempotent)

lemma constructed_paths_normalized:
  "(Join_const pf q sub = Inr p \<longrightarrow> normalized pf (mPath p))
   \<and> (operator_div pf q sub = Inr p \<longrightarrow> normalized pf (mPath p))
   \<and> (Parent pf q = Inr p \<longrightarrow> normalized pf (mPath p))
   \<and> (ReplaceExtension pf q ext = Inr p \<longrightarrow> normalized pf (mPath p))
   \<and> (normalized pf (mPath q) \<longrightarrow> RelativeTo pf q base = Inr p \<longrightarrow> normalized pf (mPath p))"
proof (intro conjI impI)
  assume "Join_const pf q sub = Inr p"
  then show "normalized pf (mPath p)"
    unfolding Join_const_def by (rule Path_ctor_normalized)
next
  assume "operator_div pf q sub = Inr p"
  then show "normalized pf (mPath p)"
    unfolding operator_div_def by (rule Path_ctor_normalized)
next
  assume "Parent pf q = Inr p"
  then have "\<exists>raw. Path_ctor pf raw = Inr p"
    by (auto simp: Parent_def substr_def split: option.splits if_splits)
  then show "normalized pf (mPath p)"
    by (auto dest: Path_ctor_normalized)
next
  assume "ReplaceExtension pf q ext = Inr p"
  then have "\<exists>raw. Path_ctor pf raw = Inr p"
    by (auto simp: ReplaceExtension_def substr_def split: option.splits if_splits)
  then show "normalized pf (mPath p)"
    by (auto dest: Path_ctor_normalized)
next
  assume "normalized pf (mPath q)" and "RelativeTo pf q base = Inr p"
  then have "p = q \<or> (\<exists>raw. Path_ctor pf raw = Inr p)"
    by (auto simp: RelativeTo_def Let_def substr_def substr_from_def split: if_splits)
  with \<open>normalized pf (mPath q)\<close> show "normalized pf (mPath p)"
    by (auto dest: Path_ctor_normalized)
qed

lemma Path_ctor_canonical:
  assumes "Path_ctor pf raw = Inr p"
  shows "\<exists>parts. canonical_parts (PATH_SEPARATOR pf) parts
           \<and> mPath p = (case pf of
                          Windows \<Rightarrow> tl (render (PATH_SEPARATOR pf) parts)
                        | Posix \<Rightarrow> if parts = [] then [PATH_SEPARATOR pf]
                                   else render (PATH_SEPARATOR pf) parts)"
proof -
  let ?ps = "Normalize_loop (PATH_SEPARATOR pf) raw 0 []"
  have c: "canonical_parts (PATH_SEPARATOR pf) ?ps"
    by (intro canonical_parts_loop) (simp add: canonical_parts_def)
  from assms have n: "Normalize pf raw = Inr (mPath p)"
    by (auto simp: Path_ctor_def split: sum.splits)
  have "mPath p = (case pf of
                     Windows \<Rightarrow> tl (render (PATH_SEPARATOR pf) ?ps)
                   | Posix \<Rightarrow> if ?ps = [] then [PATH_SEPARATOR pf]
                              else render (PATH_SEPARATOR pf) ?ps)"
    using n unfolding Normalize_render Let_def
    by (cases pf) (simp_all split: if_splits)
  with c show ?thesis
    by blast
qed

section \<open>Properties of file input and output\<close>

lemma trailing_newlines_snoc: "trailing_newlines (t @ [CHR 0x0A]) = Suc (trailing_newlines t)"
  by (simp add: trailing_newlines_def)
lemma trailing_newlines_none: "t \<noteq> [] \<Longrightarrow> last t \<noteq> CHR 0x0A \<Longrightarrow> trailing_newlines t = 0"
  by (cases t rule: rev_cases) (auto simp: trailing_newlines_def)
lemma trailing_newlines_some: "t \<noteq> [] \<Longrightarrow> last t = CHR 0x0A \<Longrightarrow> trailing_newlines t \<ge> 1"
  by (cases t rule: rev_cases) (auto simp: trailing_newlines_def)

lemma sint_small: "unat (x :: 64 word) < 2 ^ 63 \<Longrightarrow> sint x = int (unat x)"
proof -
  assume a: "unat x < 2 ^ 63"
  have "uint x < 2 ^ 63" using a by (simp add: uint_nat del: of_nat_unat) 
  then have "signed_take_bit 63 (uint x) = uint x"
    by (intro signed_take_bit_int_eq_self) (auto intro: order_trans [of _ 0])
  then show ?thesis by (simp add: sint_uint)
qed
lemma unat_file_size: "n < 2 ^ 63 \<Longrightarrow> unat (word_of_int (int n) :: 64 word) = n"
  by (simp add: unat_of_nat)

lemma WriteText_result:
  assumes "writable fs (Str path)" and "nodes fs (Str path) \<noteq> Some Dir" and "write_ok dev"
    and "t \<noteq> []"
  shows "WriteText dev fs path t =
           (True, fs\<lparr>nodes := (nodes fs)(Str path \<mapsto>
                      File (if last t = CHR 0x0A then t else t @ [CHR 0x0A]))\<rparr>)"
  using assms
  by (auto simp: WriteText_def ofstream_open_trunc_def ofstream_put_def Let_def)

lemma ReadText_File:
  "nodes fs (Str path) = Some (File c) \<Longrightarrow> readable fs (Str path) \<Longrightarrow> ReadText fs path = c"
  by (simp add: ReadText_def ifstream_open_def Let_def)

text \<open>
  C5, as the code has it. Where the stream opens and the write succeeds, a non-empty
  text is written unchanged if it already ends with a line break and followed by one
  line break otherwise. The content read back therefore ends with a line break, and
  with as many as the text had where it had some: exactly one only for a text that
  ends with at most one. An empty text is refused.
\<close>

theorem WriteText_enforces_newline:
  assumes "writable fs (Str path)" and "nodes fs (Str path) \<noteq> Some Dir" and "write_ok dev"
    and "readable fs (Str path)" and "t \<noteq> []"
  shows "fst (WriteText dev fs path []) = False
     \<and> fst (WriteText dev fs path t) = True
     \<and> ReadText (snd (WriteText dev fs path t)) path
         = (if last t = CHR 0x0A then t else t @ [CHR 0x0A])
     \<and> last (ReadText (snd (WriteText dev fs path t)) path) = CHR 0x0A
     \<and> trailing_newlines (ReadText (snd (WriteText dev fs path t)) path)
         = max 1 (trailing_newlines t)"
proof -
  let ?out = "if last t = CHR 0x0A then t else t @ [CHR 0x0A]"
  have empty: "fst (WriteText dev fs path []) = False"
    by (simp add: WriteText_def ofstream_open_trunc_def split: prod.splits)
  have w: "WriteText dev fs path t = (True, fs\<lparr>nodes := (nodes fs)(Str path \<mapsto> File ?out)\<rparr>)"
    using assms by (rule_tac WriteText_result)
  have r: "ReadText (snd (WriteText dev fs path t)) path = ?out"
    using assms(4) by (simp add: w ReadText_File)
  have l: "last ?out = CHR 0x0A"
    by simp
  have n: "trailing_newlines ?out = max 1 (trailing_newlines t)"
    using assms(5) trailing_newlines_some [of t] by (auto simp: trailing_newlines_snoc trailing_newlines_none)
  show ?thesis
    using empty w r l n by simp
qed

theorem WriteText_enforces_newline_witness:
  "ReadText (snd (WriteText no_faults (concrete_fs [] []) \<lparr>mPath = ''f''\<rparr> ''hello'')) \<lparr>mPath = ''f''\<rparr>
     = ''hello'' @ [CHR 0x0A]
   \<and> fst (WriteText no_faults (concrete_fs [] []) \<lparr>mPath = ''f''\<rparr> ''hello'') = True
   \<and> fst (WriteText no_faults (concrete_fs [] []) \<lparr>mPath = ''f''\<rparr> []) = False"
  using WriteText_enforces_newline [of "concrete_fs [] []" "\<lparr>mPath = ''f''\<rparr>" no_faults "''hello''"]
  by (simp add: concrete_fs_def no_faults_def Str_def)

text \<open>
  C5 as stated fails: a text that ends with two line breaks is written as it is, and
  the content ends with two line breaks, not with exactly one.
\<close>

theorem WriteText_two_newlines:
  "fst (WriteText no_faults (concrete_fs [] []) \<lparr>mPath = ''f''\<rparr> (''a'' @ [CHR 0x0A, CHR 0x0A])) = True
   \<and> ReadText (snd (WriteText no_faults (concrete_fs [] []) \<lparr>mPath = ''f''\<rparr>
                     (''a'' @ [CHR 0x0A, CHR 0x0A]))) \<lparr>mPath = ''f''\<rparr>
       = ''a'' @ [CHR 0x0A, CHR 0x0A]
   \<and> trailing_newlines (ReadText (snd (WriteText no_faults (concrete_fs [] []) \<lparr>mPath = ''f''\<rparr>
                     (''a'' @ [CHR 0x0A, CHR 0x0A]))) \<lparr>mPath = ''f''\<rparr>) = 2"
  by code_simp




text \<open>
  \<^verbatim>\<open>ReadBlock\<close> where the stream does not open, and where \<^verbatim>\<open>offset + size\<close> does not
  exceed the range of \<^verbatim>\<open>u64\<close>: the result is empty exactly in the cases the
  specification lists, and otherwise the \<open>size\<close> bytes from \<open>offset\<close>.
\<close>

lemma ReadBlock_unopened:
  "failbit (ifstream_open fs (Str path) True) \<Longrightarrow> ReadBlock dev fs path sz offset = Inr []"
  by (simp add: ReadBlock_def Let_def)

lemma ReadBlock_no_wrap:
  assumes fl: "nodes fs (Str path) = Some (File c)" "readable fs (Str path)"
    and len: "length c < 2 ^ 63"
    and nowrap: "unat offset + unat sz < 2 ^ 64"
  shows "ReadBlock dev fs path sz offset =
     (if length c \<le> unat offset \<or> sz = 0 \<or> length c < unat offset + unat sz
         \<or> \<not> seek_ok dev \<or> \<not> read_ok dev
      then Inr []
      else Inr (map u8_of_char (take (unat sz) (drop (unat offset) c))))"
proof -
  let ?s0 = "\<lparr>is_open = True, failbit = False, eofbit = False, gpos = length c, buf = c\<rparr>"
  let ?W = "word_of_int (int (length c)) :: u64"
  have opened: "ifstream_open fs (Str path) True = ?s0"
    using fl by (simp add: ifstream_open_def)
  have W: "unat ?W = length c"
    using len by (rule unat_file_size)
  have sum: "unat (offset + sz) = unat offset + unat sz"
    using nowrap unat_add_lem [of offset sz] by simp
  have ge: "(offset \<ge> ?W) = (length c \<le> unat offset)"
    by (simp only: word_le_nat_alt W)
  have gt: "(offset + sz > ?W) = (length c < unat offset + unat sz)"
    by (simp only: word_less_nat_alt W sum)
  show ?thesis
  proof (cases "length c \<le> unat offset \<or> sz = 0 \<or> length c < unat offset + unat sz")
    case True
    then show ?thesis
      unfolding ReadBlock_def Let_def opened tellg_def using ge gt by auto
  next
    case False
    then have off: "unat offset < length c" and fit: "unat offset + unat sz \<le> length c"
      and nz: "sz \<noteq> 0"
      by auto
    have si: "sint offset = int (unat offset)"
      using off len by (intro sint_small) simp
    have small: "unat sz \<le> vector_max_size"
      using fit len by (simp add: vector_max_size_def)
    have guard: "\<not> (offset \<ge> ?W \<or> sz = 0 \<or> offset + sz > ?W)"
      using False ge gt by simp
    show ?thesis
    proof (cases "seek_ok dev")
      case False
      then show ?thesis
        unfolding ReadBlock_def Let_def opened tellg_def using guard
        by (simp add: seekg_def)
    next
      case True
      have sk: "seekg True ?s0 (sint offset) = ?s0\<lparr>eofbit := False, gpos := unat offset\<rparr>"
        using si by (simp add: seekg_def)
      show ?thesis
        unfolding ReadBlock_def Let_def opened tellg_def using guard small fit True \<open>\<not> (length c \<le> unat offset \<or> sz = 0 \<or> length c < unat offset + unat sz)\<close>
        by (simp add: sk vector_resize_def istream_read_def good_def)
    qed
  qed
qed

text \<open>
  C4. A file of two bytes, offset 1 and size \<open>2 ^ 64 - 1\<close>: the requested range ends far
  beyond the file, but \<^verbatim>\<open>offset + size\<close> wraps to 0, the range check passes, and
  the allocation of the buffer throws \<^verbatim>\<open>std::length_error\<close>; no empty result is
  returned.
\<close>

theorem ReadBlock_offset_plus_size_wraps:
  "ReadBlock no_faults (concrete_fs [(''f'', File ''ab'')] []) \<lparr>mPath = ''f''\<rparr>
     18446744073709551615 1 = Inl LengthError
   \<and> (1 :: u64) + 18446744073709551615 = 0"
  by (simp add: ReadBlock_def Let_def concrete_fs_def no_faults_def Str_def ifstream_open_def
      tellg_def seekg_def vector_resize_def vector_max_size_def word_le_nat_alt word_less_nat_alt)

text \<open>
  C8, as the code has it. On an open reader whose position is within the file, with a
  cached size that is the file's, and a non-zero \<open>size\<close> that does not carry
  \<^verbatim>\<open>currentPos + size\<close> beyond the range of \<^verbatim>\<open>u64\<close>: the size is clamped to the
  bytes that remain, the vector is resized to the clamped size, and the call fails
  exactly when the device reports an error. A size of zero is refused: the call
  returns failure and touches neither the reader nor the vector.
\<close>

theorem Read_clamps:
  assumes opn: "IsOpen r"
    and nz: "sz \<noteq> 0"
    and cached: "unat (mSize r) = length (buf (mStream r))"
    and pos: "gpos (mStream r) \<le> length (buf (mStream r))"
    and small: "length (buf (mStream r)) < 2 ^ 63"
    and nowrap: "gpos (mStream r) + unat sz < 2 ^ 64"
  shows "Read dev r data sz =
           Inr (read_ok dev,
                r\<lparr>mStream :=
                    (if read_ok dev
                     then (mStream r)\<lparr>gpos := gpos (mStream r)
                            + min (unat sz) (length (buf (mStream r)) - gpos (mStream r))\<rparr>
                     else (mStream r)\<lparr>failbit := True\<rparr>)\<rparr>,
                (if read_ok dev
                 then map u8_of_char
                        (take (min (unat sz) (length (buf (mStream r)) - gpos (mStream r)))
                           (drop (gpos (mStream r)) (buf (mStream r))))
                 else take (min (unat sz) (length (buf (mStream r)) - gpos (mStream r))) data
                      @ replicate (min (unat sz) (length (buf (mStream r)) - gpos (mStream r))
                                   - length data) 0))
         \<and> Read dev r data 0 = Inr (False, r, data)"
proof -
  let ?s = "mStream r"
  let ?g = "gpos ?s"
  let ?L = "length (buf ?s)"
  let ?n = "min (unat sz) (?L - ?g)"
  have gd: "good ?s" and nf: "\<not> failbit ?s"
    using opn by (auto simp: IsOpen_def good_def)
  have P: "Position r = word_of_int (int ?g)"
    using opn nf by (simp add: Position_def tellg_def)
  have uP: "unat (Position r) = ?g"
    unfolding P using pos small by (intro unat_file_size) simp
  have sum: "unat (Position r + sz) = ?g + unat sz"
    using nowrap unat_add_lem [of "Position r" sz] uP by simp
  have cmp: "(Position r + sz > mSize r) = (?L < ?g + unat sz)"
    by (simp only: word_less_nat_alt sum cached)
  have le: "Position r \<le> mSize r"
    using pos by (simp add: word_le_nat_alt uP cached)
  have diff: "unat (mSize r - Position r) = ?L - ?g"
    using le by (simp add: unat_sub uP cached)
  have clamp: "unat (if Position r + sz > mSize r then mSize r - Position r else sz) = ?n"
    using cmp diff by auto
  have "?n \<le> ?L"
    by simp
  with small have ok: "\<not> ?n > vector_max_size"
    unfolding vector_max_size_def by linarith
  have vr: "vector_resize data ?n = Inr (take ?n data @ replicate (?n - length data) 0)"
    unfolding vector_resize_def using ok by (rule if_not_P)
  have fits: "?g + ?n \<le> ?L"
    using pos by simp
  have zero: "Read dev r data 0 = Inr (False, r, data)"
    by (simp add: Read_def)
  have main: "Read dev r data sz =
      (case istream_read (read_ok dev) ?s ?n of
         (s, got) \<Rightarrow> Inr (good s, r\<lparr>mStream := s\<rparr>,
            map u8_of_char got @ drop (length got) (take ?n data @ replicate (?n - length data) 0)))"
    using opn nz unfolding Read_def Let_def clamp vr
    by simp
  show ?thesis
  proof (cases "read_ok dev")
    case True
    have "istream_read True ?s ?n = (?s\<lparr>gpos := ?g + ?n\<rparr>, take ?n (drop ?g (buf ?s)))"
      using gd fits by (simp add: istream_read_def)
    with True gd zero show ?thesis
      unfolding main by (simp add: good_def min_def)
  next
    case False
    have "istream_read False ?s ?n = (?s\<lparr>failbit := True\<rparr>, [])"
      using gd by (simp add: istream_read_def)
    with False zero show ?thesis
      unfolding main by (simp add: good_def)
  qed
qed

theorem Read_clamps_witness:
  "Read no_faults (StreamReader_ctor (concrete_fs [(''f'', File ''ab'')] []) \<lparr>mPath = ''f''\<rparr>) [] 5
     = Inr (True,
            \<lparr>mStream = \<lparr>is_open = True, failbit = False, eofbit = False, gpos = 2, buf = ''ab''\<rparr>,
              mSize = 2\<rparr>,
            [97, 98])"
proof -
  let ?r = "\<lparr>mStream = \<lparr>is_open = True, failbit = False, eofbit = False, gpos = 0, buf = ''ab''\<rparr>,
              mSize = 2 :: size_t\<rparr>"
  have r: "StreamReader_ctor (concrete_fs [(''f'', File ''ab'')] []) \<lparr>mPath = ''f''\<rparr> = ?r"
    by (simp add: StreamReader_ctor_def concrete_fs_def Str_def ifstream_open_def Let_def
        seekg_def tellg_def)
  have "IsOpen ?r" "(5 :: size_t) \<noteq> 0" "unat (mSize ?r) = length (buf (mStream ?r))"
    "gpos (mStream ?r) \<le> length (buf (mStream ?r))" "length (buf (mStream ?r)) < 2 ^ 63"
    "gpos (mStream ?r) + unat (5 :: size_t) < 2 ^ 64"
    by (simp_all add: IsOpen_def good_def)
  from Read_clamps [OF this, of no_faults "[]"] show ?thesis
    unfolding r by (simp add: no_faults_def u8_of_char_def)
qed

text \<open>
  C8 as stated fails: on an open reader, with no I/O error, a request for zero bytes
  returns failure.
\<close>

theorem Read_zero_size_fails:
  "IsOpen (StreamReader_ctor (concrete_fs [(''f'', File ''ab'')] []) \<lparr>mPath = ''f''\<rparr>)
   \<and> Read no_faults (StreamReader_ctor (concrete_fs [(''f'', File ''ab'')] []) \<lparr>mPath = ''f''\<rparr>) [] 0
       = Inr (False, StreamReader_ctor (concrete_fs [(''f'', File ''ab'')] []) \<lparr>mPath = ''f''\<rparr>, [])
   \<and> read_ok no_faults"
  by (simp add: Read_def StreamReader_ctor_def concrete_fs_def Str_def ifstream_open_def Let_def
        seekg_def tellg_def IsOpen_def good_def no_faults_def)

section \<open>Properties of directory creation and enumeration\<close>

lemma Parent_of_code_name:
  "Parent Windows \<lparr>mPath = ''92''\<rparr> = Inr \<lparr>mPath = ''92''\<rparr>"
  "Parent Posix \<lparr>mPath = ''/47''\<rparr> = Inr \<lparr>mPath = ''/47''\<rparr>"
  by code_simp+

text \<open>
  The parent of the path named after the separator's code is that path again, so
  \<^verbatim>\<open>CreateAll\<close> on it, where it does not exist, calls itself with the same argument
  and the same file system for ever.
\<close>

lemma CreateAll_code_name_diverges:
  assumes fresh: "\<not> Exists fs \<lparr>mPath = (case pf of Windows \<Rightarrow> ''92'' | Posix \<Rightarrow> ''/47'')\<rparr>"
  shows "CreateAll pf fs \<lparr>mPath = (case pf of Windows \<Rightarrow> ''92'' | Posix \<Rightarrow> ''/47'')\<rparr> = None"
proof -
  let ?q = "\<lparr>mPath = (case pf of Windows \<Rightarrow> ''92'' | Posix \<Rightarrow> ''/47'')\<rparr>"
  have par: "Parent pf ?q = Inr ?q"
    by (cases pf) (simp_all add: Parent_of_code_name)
  have notroot: "mPath ?q \<noteq> [PATH_SEPARATOR pf]"
    by (cases pf) (simp_all add: PATH_SEPARATOR_def)
  have "\<not> (pf' = pf \<and> fs' = fs \<and> p' = ?q)" if "CreateAll pf' fs' p' = Some y" for pf' fs' p' y
  proof (rule CreateAll.raw_induct [OF _ that], goal_cases)
    case (1 f a b c d)
    show ?case
    proof
      assume eq: "a = pf \<and> b = fs \<and> c = ?q"
      from 1(2) eq fresh par notroot obtain r where "f pf fs ?q = Some r"
        by (auto simp: bind_eq_Some_conv split: if_splits)
      from 1(1) [OF this] show False
        by simp
    qed
  qed
  then show ?thesis
    by (cases "CreateAll pf fs ?q") auto
qed

text \<open>
  Every path without a separator beyond position 0 has that path as its parent:
  where neither exists, \<^verbatim>\<open>CreateAll\<close> does not return.
\<close>

lemma CreateAll_diverges:
  assumes "\<not> Exists fs p"
    and "mPath p \<noteq> [PATH_SEPARATOR pf]"
    and "find_last_of (mPath p) (PATH_SEPARATOR pf) = None
         \<or> find_last_of (mPath p) (PATH_SEPARATOR pf) = Some 0"
    and "\<not> Exists fs \<lparr>mPath = (case pf of Windows \<Rightarrow> ''92'' | Posix \<Rightarrow> ''/47'')\<rparr>"
  shows "CreateAll pf fs p = None"
proof -
  have "Parent pf p = Inr \<lparr>mPath = (case pf of Windows \<Rightarrow> ''92'' | Posix \<Rightarrow> ''/47'')\<rparr>"
    using assms(3) by (rule Parent_no_inner_separator)
  with assms(1,2,4) CreateAll_code_name_diverges [OF assms(4)] show ?thesis
    by (subst CreateAll.simps) simp
qed

text \<open>
  C7. \<^verbatim>\<open>Path("foo").CreateAll()\<close> on Windows in an empty directory, and
  \<^verbatim>\<open>Path("/foo").CreateAll()\<close> on the other branch where only the root exists: the
  recursion into \<^verbatim>\<open>Parent()\<close> never reaches the root separator and never returns.
\<close>

theorem CreateAll_never_returns:
  "CreateAll Windows (concrete_fs [] []) \<lparr>mPath = ''foo''\<rparr> = None
   \<and> CreateAll Posix (concrete_fs [(''/'', Dir)] []) \<lparr>mPath = ''/foo''\<rparr> = None"
proof -
  have w: "find_last_of (mPath \<lparr>mPath = ''foo''\<rparr>) (PATH_SEPARATOR Windows) = None
           \<or> find_last_of (mPath \<lparr>mPath = ''foo''\<rparr>) (PATH_SEPARATOR Windows) = Some 0"
    and p: "find_last_of (mPath \<lparr>mPath = ''/foo''\<rparr>) (PATH_SEPARATOR Posix) = None
           \<or> find_last_of (mPath \<lparr>mPath = ''/foo''\<rparr>) (PATH_SEPARATOR Posix) = Some 0"
    by code_simp+
  have nw: "mPath \<lparr>mPath = ''foo''\<rparr> \<noteq> [PATH_SEPARATOR Windows]"
    and np: "mPath \<lparr>mPath = ''/foo''\<rparr> \<noteq> [PATH_SEPARATOR Posix]"
    by simp_all
  have ew: "\<not> Exists (concrete_fs [] []) \<lparr>mPath = ''foo''\<rparr>"
    "\<not> Exists (concrete_fs [] [])
         \<lparr>mPath = (case Windows of Windows \<Rightarrow> ''92'' | Posix \<Rightarrow> ''/47'')\<rparr>"
    and ep: "\<not> Exists (concrete_fs [(''/'', Dir)] []) \<lparr>mPath = ''/foo''\<rparr>"
    "\<not> Exists (concrete_fs [(''/'', Dir)] [])
         \<lparr>mPath = (case Posix of Windows \<Rightarrow> ''92'' | Posix \<Rightarrow> ''/47'')\<rparr>"
    by (simp_all add: Exists_def concrete_fs_def)
  show ?thesis
    using CreateAll_diverges [OF ew(1) nw w ew(2)] CreateAll_diverges [OF ep(1) np p ep(2)]
    by simp
qed

text \<open>Where the path named after the code exists, the same call returns.\<close>

lemma CreateAll_returns_example:
  "CreateAll Posix (concrete_fs [(''/'', Dir), (''/47'', Dir)] []) \<lparr>mPath = ''/foo''\<rparr>
     = Some (Inr (True, (concrete_fs [(''/'', Dir), (''/47'', Dir)] [])
                    \<lparr>nodes := (nodes (concrete_fs [(''/'', Dir), (''/47'', Dir)] []))(''/foo'' \<mapsto> Dir)\<rparr>))"
proof -
  have p: "Parent Posix \<lparr>mPath = ''/foo''\<rparr> = Inr \<lparr>mPath = ''/47''\<rparr>"
    by code_simp
  show ?thesis
    by (subst CreateAll.simps)
       (simp add: p Exists_def concrete_fs_def PATH_SEPARATOR_def Create_def CreateDirectoryA_def)
qed

text \<open>
  One increment of a live iterator: it reaches the end state when only \<^verbatim>\<open>.\<close> and
  \<^verbatim>\<open>..\<close> are left, and otherwise its current entry becomes the root joined with the
  first pending name that is neither, the names before it being skipped.
\<close>

lemma operator_inc_exhausts:
  assumes "\<not> mIsEnd it" and "mFindHandle it = Some names" and "\<forall>n \<in> set names. pseudo_entry n"
  shows "operator_inc pf it = Inr (it\<lparr>mIsEnd := True, mFindHandle := Some []\<rparr>)"
  using assms
proof (induction names arbitrary: it)
  case Nil
  then show ?case
    by (simp add: operator_inc.simps FindNextFileA_def)
next
  case (Cons n ns)
  let ?it = "it\<lparr>mFindHandle := Some ns\<rparr>"
  have "operator_inc pf it = ProcessCurrentEntry pf ?it n"
    using Cons.prems by (simp add: operator_inc.simps FindNextFileA_def)
  also have "\<dots> = operator_inc pf ?it"
    using Cons.prems by (simp add: ProcessCurrentEntry.simps pseudo_entry_def)
  also have "\<dots> = Inr (?it\<lparr>mIsEnd := True, mFindHandle := Some []\<rparr>)"
    using Cons.prems by (intro Cons.IH) simp_all
  finally show ?case
    by simp
qed

lemma operator_inc_advances:
  assumes "\<not> mIsEnd it" and "mFindHandle it = Some (skipped @ n # rest)"
    and "\<forall>x \<in> set skipped. pseudo_entry x" and "\<not> pseudo_entry n"
  shows "operator_inc pf it =
           map_sum id (\<lambda>p. it\<lparr>mCurrent := p, mFindHandle := Some rest\<rparr>)
             (operator_div pf (mRoot it) n)"
  using assms
proof (induction skipped arbitrary: it)
  case Nil
  let ?it = "it\<lparr>mFindHandle := Some rest\<rparr>"
  have "operator_inc pf it = ProcessCurrentEntry pf ?it n"
    using Nil.prems by (simp add: operator_inc.simps FindNextFileA_def)
  also have "\<dots> = map_sum id (\<lambda>p. it\<lparr>mCurrent := p, mFindHandle := Some rest\<rparr>)
                      (operator_div pf (mRoot it) n)"
    using Nil.prems
    by (cases "operator_div pf (mRoot it) n")
       (simp_all add: ProcessCurrentEntry.simps pseudo_entry_def)
  finally show ?case .
next
  case (Cons s ss)
  let ?it = "it\<lparr>mFindHandle := Some (ss @ n # rest)\<rparr>"
  have "operator_inc pf it = ProcessCurrentEntry pf ?it s"
    using Cons.prems by (simp add: operator_inc.simps FindNextFileA_def)
  also have "\<dots> = operator_inc pf ?it"
    using Cons.prems by (simp add: ProcessCurrentEntry.simps pseudo_entry_def)
  also have "\<dots> = map_sum id (\<lambda>p. ?it\<lparr>mCurrent := p, mFindHandle := Some rest\<rparr>)
                      (operator_div pf (mRoot ?it) n)"
    using Cons.prems by (intro Cons.IH) simp_all
  finally show ?case
    by (simp add: id_def)
qed

lemma names_cases:
  obtains (all_pseudo) "\<forall>n \<in> set names. pseudo_entry n"
  | (entry) skipped n rest where "names = skipped @ n # rest"
      and "\<forall>x \<in> set skipped. pseudo_entry x" and "\<not> pseudo_entry n"
proof (cases "\<exists>n \<in> set names. \<not> pseudo_entry n")
  case False
  then show ?thesis
    by (intro all_pseudo) simp
next
  case True
  then obtain ys x zs where "names = ys @ x # zs" "\<not> pseudo_entry x"
      "\<forall>y \<in> set ys. \<not> \<not> pseudo_entry y"
    by (auto dest!: split_list_first_prop)
  then show ?thesis
    by (intro entry [of ys x zs]) simp_all
qed

lemma visit_yields:
  "\<not> mIsEnd it \<Longrightarrow> mFindHandle it = Some names \<Longrightarrow> visit pf it = Inr ps \<Longrightarrow>
     map Inr ps = Inr (mCurrent it)
        # map (operator_div pf (mRoot it)) (filter (\<lambda>n. \<not> pseudo_entry n) names)"
proof (induction pf it arbitrary: names ps rule: visit.induct)
  case (1 pf it)
  note live = "1.prems"(1) and h = "1.prems"(2) and run = "1.prems"(3)
  show ?case
  proof (cases names rule: names_cases)
    case all_pseudo
    then have none: "filter (\<lambda>n. \<not> pseudo_entry n) names = []"
      by simp
    have "operator_inc pf it = Inr (it\<lparr>mIsEnd := True, mFindHandle := Some []\<rparr>)"
      using live h all_pseudo by (rule operator_inc_exhausts)
    with live run have "ps = [mCurrent it]"
      by (subst (asm) visit.simps) (simp add: visit.simps)
    with none show ?thesis
      by simp
  next
    case (entry skipped n rest)
    then have sel: "filter (\<lambda>n. \<not> pseudo_entry n) names
                      = n # filter (\<lambda>n. \<not> pseudo_entry n) rest"
      by simp
    have adv: "operator_inc pf it =
           map_sum id (\<lambda>p. it\<lparr>mCurrent := p, mFindHandle := Some rest\<rparr>)
             (operator_div pf (mRoot it) n)"
      using live h entry by (intro operator_inc_advances [of it skipped n rest pf]) simp_all
    show ?thesis
    proof (cases "operator_div pf (mRoot it) n")
      case (Inl e)
      with adv have "operator_inc pf it = Inl e"
        by simp
      with live run show ?thesis
        by (subst (asm) visit.simps) simp
    next
      case (Inr p)
      let ?it' = "it\<lparr>mCurrent := p, mFindHandle := Some rest\<rparr>"
      from Inr adv have inc: "operator_inc pf it = Inr ?it'"
        by simp
      from live run inc obtain ps' where tail: "visit pf ?it' = Inr ps'" and ps: "ps = mCurrent it # ps'"
        by (subst (asm) visit.simps) (auto split: sum.splits)
      have "map Inr ps' = Inr (mCurrent ?it')
              # map (operator_div pf (mRoot ?it')) (filter (\<lambda>n. \<not> pseudo_entry n) rest)"
        using live by (intro "1.IH" [OF live inc _ _ tail]) simp_all
      with ps sel Inr show ?thesis
        by simp
    qed
  qed
qed

lemma DirectoryIterator_ctor_first:
  assumes "IsDirectory fs root" and "enumerated fs root = n # rest"
  shows "DirectoryIterator_ctor pf fs root =
           operator_inc pf \<lparr>mIsEnd = False, mRoot = root, mCurrent = \<lparr>mPath = []\<rparr>,
                            mFindHandle = Some (n # rest)\<rparr>"
proof -
  from assms have "FindFirstFileA fs (Str root @ [CHR 0x5C, CHR ''*'']) = (Some rest, n)"
    by (auto simp: enumerated_def FindFirstFileA_def split: option.splits if_splits)
  with assms(1) show ?thesis
    by (simp add: DirectoryIterator_ctor_def operator_inc.simps FindNextFileA_def)
qed

lemma DirectoryIterator_ctor_nothing:
  assumes "enumerated fs root = []"
  shows "\<exists>it. DirectoryIterator_ctor pf fs root = Inr it \<and> mIsEnd it"
proof (cases "IsDirectory fs root")
  case False
  then show ?thesis
    by (simp add: DirectoryIterator_ctor_def)
next
  case True
  with assms have "FindFirstFileA fs (Str root @ [CHR 0x5C, CHR ''*'']) = (None, [])"
    by (auto simp: enumerated_def FindFirstFileA_def split: option.splits)
  with True show ?thesis
    by (simp add: DirectoryIterator_ctor_def)
qed

text \<open>
  Whenever a traversal completes, the entries it yields are, in order, the root joined
  with each enumerated name other than \<^verbatim>\<open>.\<close> and \<^verbatim>\<open>..\<close>.
\<close>

lemma Entries_yields:
  assumes "Entries pf fs root = Inr ps"
  shows "map Inr ps
           = map (operator_div pf root) (filter (\<lambda>n. \<not> pseudo_entry n) (enumerated fs root))"
proof (cases "enumerated fs root")
  case Nil
  with DirectoryIterator_ctor_nothing [OF Nil, of pf] assms show ?thesis
    by (auto simp: Entries_def visit.simps)
next
  case (Cons n rest)
  then have dir: "IsDirectory fs root"
    by (auto simp: enumerated_def split: if_splits)
  let ?it = "\<lparr>mIsEnd = False, mRoot = root, mCurrent = \<lparr>mPath = []\<rparr>,
               mFindHandle = Some (n # rest)\<rparr>"
  have ctor: "DirectoryIterator_ctor pf fs root = operator_inc pf ?it"
    using dir Cons by (rule DirectoryIterator_ctor_first)
  show ?thesis
  proof (cases "n # rest" rule: names_cases)
    case all_pseudo
    then have none: "filter (\<lambda>n. \<not> pseudo_entry n) (n # rest) = []"
      by simp
    have "operator_inc pf ?it = Inr (?it\<lparr>mIsEnd := True, mFindHandle := Some []\<rparr>)"
      using all_pseudo by (intro operator_inc_exhausts [of ?it "n # rest"]) simp_all
    with assms ctor have "ps = []"
      by (simp add: Entries_def visit.simps)
    with none Cons show ?thesis
      by simp
  next
    case (entry skipped m rest')
    have sel: "filter (\<lambda>n. \<not> pseudo_entry n) (n # rest)
                      = m # filter (\<lambda>n. \<not> pseudo_entry n) rest'"
      unfolding entry(1) using entry(2,3) by simp
    have adv: "operator_inc pf ?it =
           map_sum id (\<lambda>p. ?it\<lparr>mCurrent := p, mFindHandle := Some rest'\<rparr>)
             (operator_div pf (mRoot ?it) m)"
      using entry by (intro operator_inc_advances [of ?it skipped m rest' pf]) simp_all
    show ?thesis
    proof (cases "operator_div pf root m")
      case (Inl e)
      with assms ctor adv show ?thesis
        by (simp add: Entries_def)
    next
      case (Inr p)
      let ?it1 = "?it\<lparr>mCurrent := p, mFindHandle := Some rest'\<rparr>"
      from assms ctor adv Inr have "visit pf ?it1 = Inr ps"
        by (simp add: Entries_def)
      then have "map Inr ps = Inr (mCurrent ?it1)
            # map (operator_div pf (mRoot ?it1)) (filter (\<lambda>n. \<not> pseudo_entry n) rest')"
        by (intro visit_yields) simp_all
      with sel Inr Cons show ?thesis
        by simp
    qed
  qed
qed

text \<open>
  Over a non-empty root and plain names the traversal does complete, and an entry with
  one of the two names cannot arise from another name.
\<close>

lemma visit_returns:
  "mPath (mRoot it) \<noteq> [] \<Longrightarrow> mFindHandle it = Some names \<Longrightarrow>
     \<forall>n \<in> set names. plain_name n \<Longrightarrow> \<exists>ps. visit pf it = Inr ps"
proof (induction pf it arbitrary: names rule: visit.induct)
  case (1 pf it)
  show ?case
  proof (cases "mIsEnd it")
    case True
    then show ?thesis
      by (simp add: visit.simps)
  next
    case live: False
    show ?thesis
    proof (cases names rule: names_cases)
      case all_pseudo
      have "operator_inc pf it = Inr (it\<lparr>mIsEnd := True, mFindHandle := Some []\<rparr>)"
        using live "1.prems"(2) all_pseudo by (rule operator_inc_exhausts)
      with live show ?thesis
        by (subst visit.simps) (simp add: visit.simps)
    next
      case (entry skipped n rest)
      have adv: "operator_inc pf it =
             map_sum id (\<lambda>p. it\<lparr>mCurrent := p, mFindHandle := Some rest\<rparr>)
               (operator_div pf (mRoot it) n)"
        using live "1.prems"(2) entry
        by (intro operator_inc_advances [of it skipped n rest pf]) simp_all
      have "plain_name n"
        using "1.prems"(3) entry(1) by simp
      from operator_div_plain_name [OF "1.prems"(1) this entry(3), of pf]
      obtain p where "operator_div pf (mRoot it) n = Inr p"
        by auto
      with adv have inc: "operator_inc pf it = Inr (it\<lparr>mCurrent := p, mFindHandle := Some rest\<rparr>)"
        by simp
      have "\<exists>ps. visit pf (it\<lparr>mCurrent := p, mFindHandle := Some rest\<rparr>) = Inr ps"
        using "1.prems" entry(1) by (intro "1.IH" [OF live inc, of rest]) simp_all
      with live inc show ?thesis
        by (subst visit.simps) auto
    qed
  qed
qed

lemma Entries_returns:
  assumes "mPath root \<noteq> []" and "\<forall>n \<in> set (enumerated fs root). plain_name n"
  shows "\<exists>ps. Entries pf fs root = Inr ps"
proof (cases "enumerated fs root")
  case Nil
  with DirectoryIterator_ctor_nothing [OF Nil, of pf] show ?thesis
    by (auto simp: Entries_def visit.simps)
next
  case (Cons n rest)
  then have dir: "IsDirectory fs root"
    by (auto simp: enumerated_def split: if_splits)
  let ?it = "\<lparr>mIsEnd = False, mRoot = root, mCurrent = \<lparr>mPath = []\<rparr>,
               mFindHandle = Some (n # rest)\<rparr>"
  have ctor: "DirectoryIterator_ctor pf fs root = operator_inc pf ?it"
    using dir Cons by (rule DirectoryIterator_ctor_first)
  show ?thesis
  proof (cases "n # rest" rule: names_cases)
    case all_pseudo
    have "operator_inc pf ?it = Inr (?it\<lparr>mIsEnd := True, mFindHandle := Some []\<rparr>)"
      using all_pseudo by (intro operator_inc_exhausts [of ?it "n # rest"]) simp_all
    with ctor show ?thesis
      by (simp add: Entries_def visit.simps)
  next
    case (entry skipped m rest')
    have adv: "operator_inc pf ?it =
           map_sum id (\<lambda>p. ?it\<lparr>mCurrent := p, mFindHandle := Some rest'\<rparr>)
             (operator_div pf (mRoot ?it) m)"
      using entry by (intro operator_inc_advances [of ?it skipped m rest' pf]) simp_all
    have names: "\<forall>x \<in> set (skipped @ m # rest'). plain_name x"
      using assms(2) Cons entry(1) by simp
    then have "plain_name m"
      by simp
    from operator_div_plain_name [OF assms(1) this entry(3), of pf]
    obtain p where "operator_div pf root m = Inr p"
      by auto
    with adv ctor have c: "DirectoryIterator_ctor pf fs root
        = Inr (?it\<lparr>mCurrent := p, mFindHandle := Some rest'\<rparr>)"
      by simp
    have "\<exists>ps. visit pf (?it\<lparr>mCurrent := p, mFindHandle := Some rest'\<rparr>) = Inr ps"
      using assms(1) names by (intro visit_returns [of _ rest']) simp_all
    with c show ?thesis
      by (simp add: Entries_def)
  qed
qed

lemma map_Inr_names:
  "map Inr qs = map f ns \<Longrightarrow> \<forall>n \<in> set ns. \<forall>q. f n = Inr q \<longrightarrow> g q = n \<Longrightarrow> map g qs = ns"
proof (induction ns arbitrary: qs)
  case Nil
  then show ?case
    by simp
next
  case (Cons n ns)
  then obtain q qs' where "qs = q # qs'"
    by (cases qs) auto
  with Cons show ?case
    by auto
qed

text \<open>
  C9. A traversal that completes yields, in order, the root joined with each name the
  system enumerates other than \<^verbatim>\<open>.\<close> and \<^verbatim>\<open>..\<close>: every state visited holds a child
  that was enumerated, and the two pseudo-entries are skipped. Where the root is not
  empty and the enumerated names are plain file names, the traversal completes, no
  entry it yields is named \<^verbatim>\<open>.\<close> or \<^verbatim>\<open>..\<close>, and on Windows the names of the entries
  are the enumerated names without those two.
\<close>

theorem Entries_skip_pseudo_entries:
  "(Entries pf fs root = Inr ps \<longrightarrow>
      map Inr ps
        = map (operator_div pf root) (filter (\<lambda>n. \<not> pseudo_entry n) (enumerated fs root)))
   \<and> (mPath root \<noteq> [] \<and> (\<forall>n \<in> set (enumerated fs root). plain_name n) \<longrightarrow>
        (\<exists>qs. Entries pf fs root = Inr qs
            \<and> (\<forall>q \<in> set qs. \<not> pseudo_entry (Filename q))
            \<and> (pf = Windows \<longrightarrow>
                 map Filename qs = filter (\<lambda>n. \<not> pseudo_entry n) (enumerated fs root))))"
proof (intro conjI impI)
  assume "Entries pf fs root = Inr ps"
  then show "map Inr ps
      = map (operator_div pf root) (filter (\<lambda>n. \<not> pseudo_entry n) (enumerated fs root))"
    by (rule Entries_yields)
next
  let ?ns = "filter (\<lambda>n. \<not> pseudo_entry n) (enumerated fs root)"
  assume a: "mPath root \<noteq> [] \<and> (\<forall>n \<in> set (enumerated fs root). plain_name n)"
  then obtain qs where run: "Entries pf fs root = Inr qs"
    using Entries_returns [of root fs pf] by auto
  then have eq: "map Inr qs = map (operator_div pf root) ?ns"
    by (rule Entries_yields)
  have each: "\<not> pseudo_entry (Filename q) \<and> (pf = Windows \<longrightarrow> Filename q = n)"
    if "n \<in> set ?ns" and "operator_div pf root n = Inr q" for n q
    using a that by (intro Filename_operator_div [of root n pf q]) simp_all
  have no_pseudo: "\<forall>q \<in> set qs. \<not> pseudo_entry (Filename q)"
  proof
    fix q
    assume "q \<in> set qs"
    then have "(Inr q :: error + Path) \<in> set (map Inr qs)"
      by simp
    then have "Inr q \<in> set (map (operator_div pf root) ?ns)"
      by (simp only: eq)
    then have "Inr q \<in> operator_div pf root ` set ?ns"
      by (simp only: set_map)
    then obtain n where "n \<in> set ?ns" and "Inr q = operator_div pf root n"
      by (rule imageE)
    with each [of n q] show "\<not> pseudo_entry (Filename q)"
      by simp
  qed
  have names: "map Filename qs = ?ns" if "pf = Windows"
    using eq each that by (intro map_Inr_names [of qs "operator_div pf root"]) auto
  from run no_pseudo names
  show "\<exists>qs. Entries pf fs root = Inr qs
            \<and> (\<forall>q \<in> set qs. \<not> pseudo_entry (Filename q))
            \<and> (pf = Windows \<longrightarrow>
                 map Filename qs = filter (\<lambda>n. \<not> pseudo_entry n) (enumerated fs root))"
    by auto
qed

theorem Entries_skip_pseudo_entries_witness:
  "\<exists>qs. Entries Windows
          (concrete_fs [(''d'', Dir)]
             [(''d'' @ [CHR 0x5C, CHR ''*''], [''.'', ''..'', ''a.txt'', ''b.txt''])])
          \<lparr>mPath = ''d''\<rparr> = Inr qs
        \<and> map Filename qs = [''a.txt'', ''b.txt'']"
proof -
  let ?fs = "concrete_fs [(''d'', Dir)]
             [(''d'' @ [CHR 0x5C, CHR ''*''], [''.'', ''..'', ''a.txt'', ''b.txt''])]"
  have e: "enumerated ?fs \<lparr>mPath = ''d''\<rparr> = [''.'', ''..'', ''a.txt'', ''b.txt'']"
    by (simp add: enumerated_def concrete_fs_def IsDirectory_def Str_def)
  have h: "mPath \<lparr>mPath = ''d''\<rparr> \<noteq> []
           \<and> (\<forall>n \<in> set (enumerated ?fs \<lparr>mPath = ''d''\<rparr>). plain_name n)"
    unfolding e by (simp add: plain_name_def)
  have f: "filter (\<lambda>n. \<not> pseudo_entry n) (enumerated ?fs \<lparr>mPath = ''d''\<rparr>) = [''a.txt'', ''b.txt'']"
    unfolding e by (simp add: pseudo_entry_def)
  note t = Entries_skip_pseudo_entries [of Windows ?fs "\<lparr>mPath = ''d''\<rparr>" "[]", unfolded f]
  from t [THEN conjunct2] h
  have "\<exists>qs. Entries Windows ?fs \<lparr>mPath = ''d''\<rparr> = Inr qs
          \<and> (\<forall>q \<in> set qs. \<not> pseudo_entry (Filename q))
          \<and> (Windows = Windows \<longrightarrow> map Filename qs = [''a.txt'', ''b.txt''])"
    by (rule mp)
  then show ?thesis
    by auto
qed

end
